theory Spec2Isabelle
  imports Main
begin

section \<open>Strings and identifiers\<close>

text \<open>
  An RTLIL identifier (\<^verbatim>\<open>RTLIL::IdString\<close>) is modelled by its string. A public name starts
  with a backslash, an internal one with a dollar sign.
\<close>

type_synonym idstring = string

definition backslash :: char where
  "backslash = CHR 0x5C"

text \<open>\<^verbatim>\<open>std::to_string\<close> on an \<^verbatim>\<open>int\<close>: decimal digits, with a minus sign in front of a negative number.\<close>

definition digit_char :: "nat \<Rightarrow> char" where
  "digit_char n = ''0123456789'' ! n"

fun nat_digits :: "nat \<Rightarrow> string" where
  "nat_digits n = (if n < 10 then [digit_char n] else nat_digits (n div 10) @ [digit_char (n mod 10)])"

declare nat_digits.simps [simp del]

definition to_string :: "int \<Rightarrow> string" where
  "to_string i = (if i < 0 then CHR ''-'' # nat_digits (nat (- i)) else nat_digits (nat i))"

text \<open>\<^verbatim>\<open>std::string::find(needle) != npos\<close>.\<close>

fun is_prefix_of :: "string \<Rightarrow> string \<Rightarrow> bool" where
  "is_prefix_of [] ys = True"
| "is_prefix_of (x # xs) [] = False"
| "is_prefix_of (x # xs) (y # ys) = (x = y \<and> is_prefix_of xs ys)"

fun contains :: "string \<Rightarrow> string \<Rightarrow> bool" where
  "contains [] needle = (needle = [])"
| "contains (c # cs) needle = (is_prefix_of needle (c # cs) \<or> contains cs needle)"

section \<open>The probe puller's names\<close>

text \<open>
  \<^verbatim>\<open>sanitize_wire_name\<close> (pull_control_registers_probes.cc, lines 36 to 45): the loop keeps
  every character that is none of the six, and the result is the kept characters behind a
  backslash.
\<close>

definition is_stripped :: "char \<Rightarrow> bool" where
  "is_stripped c = (c = CHR ''$'' \<or> c = CHR '':'' \<or> c = CHR ''.'' \<or> c = backslash
     \<or> c = CHR ''['' \<or> c = CHR '']'')"

fun sanitize_loop :: "string \<Rightarrow> string \<Rightarrow> string" where
  "sanitize_loop [] ret = ret"
| "sanitize_loop (curr_char # rest) ret =
     (if \<not> is_stripped curr_char then sanitize_loop rest (ret @ [curr_char])
      else sanitize_loop rest ret)"

definition sanitize_wire_name :: "string \<Rightarrow> string" where
  "sanitize_wire_name wire_name = backslash # sanitize_loop wire_name []"

text \<open>
  The name of the probe of a register chunk, line 68: the cell's identifier index, the running
  chunk number, the chunk's offset and its end. The arguments are C++ \<^verbatim>\<open>int\<close>s; a chunk lies
  inside a wire whose width is an \<^verbatim>\<open>int\<close>, so the sum \<open>offset + width\<close> does not wrap.
\<close>

definition register_probe_raw_name :: "int \<Rightarrow> int \<Rightarrow> int \<Rightarrow> int \<Rightarrow> string" where
  "register_probe_raw_name index chunk_id offset width =
     ''crtlreg_prbsig'' @ to_string index @ ''WIRE'' @ to_string chunk_id @ ''BITS''
       @ to_string offset @ ''_'' @ to_string (offset + width) @ ''_''"

definition register_probe_name :: "int \<Rightarrow> int \<Rightarrow> int \<Rightarrow> int \<Rightarrow> string" where
  "register_probe_name index chunk_id offset width =
     sanitize_wire_name (register_probe_raw_name index chunk_id offset width)"

text \<open>The name of a probe threaded up from a submodule, line 90.\<close>

definition submodule_probe_name :: "string \<Rightarrow> string \<Rightarrow> int \<Rightarrow> string" where
  "submodule_probe_name submodule_wire_name cell_name port_id =
     sanitize_wire_name (submodule_wire_name @ ''INST'' @ cell_name @ ''PORT'' @ to_string port_id)"

section \<open>The netlist graph\<close>

text \<open>
  Modelled from the spec: the kernel's RTLIL classes (kernel/rtlil.h: \<^verbatim>\<open>Wire\<close>, \<^verbatim>\<open>SigChunk\<close>,
  \<^verbatim>\<open>SigSpec\<close>, \<^verbatim>\<open>Cell\<close>, \<^verbatim>\<open>Module\<close>, \<^verbatim>\<open>Design\<close>) are declared outside the passes.
  Section 3 of the specification: a wire is "a named, fixed-width signal carrier local to one
  module" with port flags and markers; a signal reference is "either a whole wire or a
  contiguous bit-range (chunk) of one"; a cell has "a mapping from port name to the
  wire/signal-slice connected to that port"; a module contains wires, cells and connections.
  The passes read these objects through pointers. A chunk points to a wire object; the model
  keeps of that object the two fields read through a chunk, its name and its width. Within one
  module a wire is identified by its name, within a design a module by its name.
\<close>

datatype wire_ref = WireRef (ref_name: idstring) (ref_width: int)

datatype state = S0 | S1 | Sx | Sz | Sa | Sm

datatype sigchunk =
  SigChunk (chunk_wire: "wire_ref option") (chunk_data: "state list") (chunk_width: int)
    (chunk_offset: int)

text \<open>
  A signal reference is the list of its chunks, as \<^verbatim>\<open>SigSpec::chunks()\<close> gives them; two signal
  references are equal when their chunks are.
\<close>

type_synonym sigspec = "sigchunk list"

record wire =
  wire_name :: idstring
  wire_width :: int
  port_id :: int
  port_input :: bool
  port_output :: bool
  wire_attributes :: "idstring list"

text \<open>
  A cell. \<open>cell_index\<close> is the \<^verbatim>\<open>index_\<close> of the identifier that names the cell;
  \<open>cell_connections\<close> is the port dictionary in its iteration order; \<open>cell_selected\<close> is
  the answer of the external selection to "is this cell in scope?".
\<close>

record cell =
  cell_name :: idstring
  cell_index :: int
  cell_type :: idstring
  cell_connections :: "(idstring \<times> sigspec) list"
  cell_attributes :: "idstring list"
  cell_selected :: bool

record rtl_module =
  mod_name :: idstring
  mod_wires :: "wire list"
  mod_cells :: "cell list"
  mod_connections :: "(sigspec \<times> sigspec) list"
  mod_processes :: "idstring list"
  mod_attributes :: "idstring list"
  mod_selected :: bool

text \<open>
  Modelled from the spec: the kernel's table of primitive cell types (\<^verbatim>\<open>yosys_celltypes\<close>,
  kernel/celltypes.h) is not part of the sources at hand; the spec says that a cell has "a
  per-port directionality (input vs. output) known from the cell's type". The table is a field
  of the design: for each primitive type, its input ports and its output ports.
\<close>

record design =
  design_modules :: "rtl_module list"
  celltypes :: "(idstring \<times> idstring list \<times> idstring list) list"

datatype error =
    Empty_selection
  | Recursive_modules
  | Unexpected_process
  | Module_missing
  | Wire_missing
  | Wire_ambiguous
  | Null_module
  | Assert_failed
  | Out_of_range
  | Null_pointer

datatype error_kind = Configuration | Structural | Crash

text \<open>
  The kinds of section 7 of the specification; an assertion of the kernel that fails, a
  dictionary lookup that throws and a null pointer that is read are crashes.
\<close>

fun kind_of :: "error \<Rightarrow> error_kind" where
  "kind_of Empty_selection = Configuration"
| "kind_of Recursive_modules = Structural"
| "kind_of Unexpected_process = Structural"
| "kind_of Module_missing = Configuration"
| "kind_of Wire_missing = Configuration"
| "kind_of Wire_ambiguous = Configuration"
| "kind_of Null_module = Crash"
| "kind_of Assert_failed = Crash"
| "kind_of Out_of_range = Crash"
| "kind_of Null_pointer = Crash"

definition ID_S :: idstring where "ID_S = backslash # ''S''"
definition ID_Y :: idstring where "ID_Y = backslash # ''Y''"
definition ID_Q :: idstring where "ID_Q = backslash # ''Q''"
definition ID_mux :: idstring where "ID_mux = ''$mux''"

subsection \<open>Reading the graph\<close>

text \<open>
  Modelled from the spec: \<^verbatim>\<open>design->module(name)\<close> and \<^verbatim>\<open>module->wire(name)\<close> are kernel
  code. Section 4.1: "given a module and a wire name, fetch the wire or report not found", and
  "resolve that module object". The result is the object of that name, or null.
\<close>

definition design_module :: "design \<Rightarrow> idstring \<Rightarrow> rtl_module option" where
  "design_module d n = find (\<lambda>m. mod_name m = n) (design_modules d)"

definition module_wire :: "rtl_module \<Rightarrow> idstring \<Rightarrow> wire option" where
  "module_wire m n = find (\<lambda>w. wire_name w = n) (mod_wires m)"

text \<open>
  Modelled from the spec: \<^verbatim>\<open>design->selected_modules()\<close> and \<^verbatim>\<open>module->selected_cells()\<close> are
  kernel code. Section 6: the selection is "provided by an external selection mechanism" and
  consumed as opaque predicates; the model keeps the answer of the predicate with each module and
  each cell.
\<close>

definition selected_modules :: "design \<Rightarrow> rtl_module list" where
  "selected_modules d = filter mod_selected (design_modules d)"

definition selected_cells :: "rtl_module \<Rightarrow> cell list" where
  "selected_cells m = filter cell_selected (mod_cells m)"

text \<open>
  Modelled from the spec: \<^verbatim>\<open>cell->getPort(name)\<close> is kernel code; it reads the cell's "mapping
  from port name to the wire/signal-slice connected to that port". It is
  \<^verbatim>\<open>connections_.at(name)\<close>, which throws on a missing port.
\<close>

definition getPort :: "cell \<Rightarrow> idstring \<Rightarrow> error + sigspec" where
  "getPort c p = (case map_of (cell_connections c) p of None \<Rightarrow> Inl Out_of_range | Some s \<Rightarrow> Inr s)"

text \<open>
  Modelled from the spec: \<^verbatim>\<open>cell->input(port)\<close> and \<^verbatim>\<open>cell->output(port)\<close> are kernel code;
  section 3 gives a cell "a per-port directionality (input vs. output) known from the cell's
  type". They read the table for a primitive type, the port flag of the instantiated module's
  wire of that name otherwise.
\<close>

definition cell_input :: "design \<Rightarrow> cell \<Rightarrow> idstring \<Rightarrow> bool" where
  "cell_input d c p =
     (case map_of (celltypes d) (cell_type c) of
        Some dirs \<Rightarrow> p \<in> set (fst dirs)
      | None \<Rightarrow>
          (case design_module d (cell_type c) of
             None \<Rightarrow> False
           | Some m \<Rightarrow> (case module_wire m p of None \<Rightarrow> False | Some w \<Rightarrow> port_input w)))"

definition cell_output :: "design \<Rightarrow> cell \<Rightarrow> idstring \<Rightarrow> bool" where
  "cell_output d c p =
     (case map_of (celltypes d) (cell_type c) of
        Some dirs \<Rightarrow> p \<in> set (snd dirs)
      | None \<Rightarrow>
          (case design_module d (cell_type c) of
             None \<Rightarrow> False
           | Some m \<Rightarrow> (case module_wire m p of None \<Rightarrow> False | Some w \<Rightarrow> port_output w)))"

subsection \<open>Signal references\<close>

text \<open>
  Modelled from the spec: \<^verbatim>\<open>SigSpec::is_wire()\<close> and \<^verbatim>\<open>SigSpec::as_wire()\<close> are kernel code;
  they tell the two kinds of signal reference of section 3 apart, "a whole wire or a contiguous
  bit-range (chunk) of one". A signal reference is a wire when it is one chunk, backed by a wire,
  as wide as that wire; \<^verbatim>\<open>as_wire()\<close> asserts it and gives the wire.
\<close>

definition as_wire :: "sigspec \<Rightarrow> error + wire_ref" where
  "as_wire s =
     (case s of
        [c] \<Rightarrow>
          (case chunk_wire c of
             Some w \<Rightarrow> if ref_width w = chunk_width c then Inr w else Inl Assert_failed
           | None \<Rightarrow> Inl Assert_failed)
      | _ \<Rightarrow> Inl Assert_failed)"

definition is_wire :: "sigspec \<Rightarrow> bool" where
  "is_wire s = (case as_wire s of Inr w \<Rightarrow> True | Inl e \<Rightarrow> False)"

text \<open>
  Modelled from the spec: \<^verbatim>\<open>SigSpec::as_chunk()\<close> is kernel code; it asserts that the signal
  reference is one chunk, the "contiguous bit-range" of section 3.
\<close>

definition as_chunk :: "sigspec \<Rightarrow> error + sigchunk" where
  "as_chunk s = (case s of [c] \<Rightarrow> Inr c | _ \<Rightarrow> Inl Assert_failed)"

text \<open>The test \<^verbatim>\<open>sig.is_wire() && sig.as_wire()->name == name\<close> of lines 123, 166, 187 and 198.\<close>

definition wire_named :: "sigspec \<Rightarrow> idstring \<Rightarrow> bool" where
  "wire_named s n = (case as_wire s of Inr w \<Rightarrow> ref_name w = n | Inl e \<Rightarrow> False)"

text \<open>
  Modelled from the spec: the constructor of a \<^verbatim>\<open>SigSpec\<close> from a wire pointer is kernel code;
  it gives the "whole wire" of section 3, and no chunk for a wire of width 0.
\<close>

definition sig_of_ref :: "wire_ref \<Rightarrow> sigspec" where
  "sig_of_ref w = (if ref_width w \<noteq> 0 then [SigChunk (Some w) [] (ref_width w) 0] else [])"

definition sig_of_wire :: "wire \<Rightarrow> sigspec" where
  "sig_of_wire w = sig_of_ref (WireRef (wire_name w) (wire_width w))"

section \<open>Loops with an early exit\<close>

text \<open>
  What a loop body does to the worklist: go on with the updated worklist, leave the search with
  a result, or fail.
\<close>

datatype 'q outcome = Continue 'q | Return "string \<times> string" | Fail error

primrec for_each :: "'a list \<Rightarrow> ('a \<Rightarrow> 'q \<Rightarrow> 'q outcome) \<Rightarrow> 'q \<Rightarrow> 'q outcome" where
  "for_each [] body q = Continue q"
| "for_each (x # xs) body q =
     (case body x q of
        Continue q' \<Rightarrow> for_each xs body q'
      | Return r \<Rightarrow> Return r
      | Fail e \<Rightarrow> Fail e)"

definition and_then :: "'q outcome \<Rightarrow> ('q \<Rightarrow> 'q outcome) \<Rightarrow> 'q outcome" where
  "and_then r f = (case r of Continue q \<Rightarrow> f q | Return x \<Rightarrow> Return x | Fail e \<Rightarrow> Fail e)"

section \<open>The signal path tracer\<close>

text \<open>
  A search node is a module with a signal reference. The module is a pointer in the source; the
  model names it, and reads it in the design where the source follows the pointer.
\<close>

type_synonym module_sigspec_pair_t = "idstring \<times> sigspec"

subsection \<open>The module-to-parent map\<close>

text \<open>
  \<^verbatim>\<open>initialize_module_to_parent_map\<close> (lines 54 to 63): for every module, for every selected
  cell whose type is a module of the design, the entry of that module is assigned.
\<close>

definition parent_map_cell ::
  "design \<Rightarrow> rtl_module \<Rightarrow> cell \<Rightarrow> (idstring \<rightharpoonup> idstring) \<Rightarrow> (idstring \<rightharpoonup> idstring)" where
  "parent_map_cell d m c pm =
     (case design_module d (cell_type c) of
        Some child \<Rightarrow> pm(mod_name child \<mapsto> mod_name m)
      | None \<Rightarrow> pm)"

definition parent_map_module ::
  "design \<Rightarrow> rtl_module \<Rightarrow> (idstring \<rightharpoonup> idstring) \<Rightarrow> (idstring \<rightharpoonup> idstring)" where
  "parent_map_module d m pm = fold (parent_map_cell d m) (selected_cells m) pm"

definition initialize_module_to_parent_map ::
  "design \<Rightarrow> rtl_module list \<Rightarrow> (idstring \<rightharpoonup> idstring) \<Rightarrow> (idstring \<rightharpoonup> idstring)" where
  "initialize_module_to_parent_map d all_modules pm = fold (parent_map_module d) all_modules pm"

subsection \<open>The displayed name\<close>

text \<open>
  \<^verbatim>\<open>find_better_wirename\<close> (lines 65 to 80): the first direct connection with the wire on one
  side and a whole wire of public name on the other gives the name; a connection whose right
  side is the wire is not looked at for its left side being the wire.
\<close>

definition public_wire_name :: "sigspec \<Rightarrow> idstring option" where
  "public_wire_name s =
     (case as_wire s of
        Inr w \<Rightarrow> (case ref_name w of c # cs \<Rightarrow> if c = backslash then Some (ref_name w) else None | [] \<Rightarrow> None)
      | Inl e \<Rightarrow> None)"

fun find_better_wirename_loop :: "(sigspec \<times> sigspec) list \<Rightarrow> wire_ref \<Rightarrow> string" where
  "find_better_wirename_loop [] wire = ref_name wire"
| "find_better_wirename_loop (conn # conns) wire =
     (if snd conn = sig_of_ref wire then
        (case public_wire_name (fst conn) of
           Some n \<Rightarrow> n
         | None \<Rightarrow> find_better_wirename_loop conns wire)
      else if fst conn = sig_of_ref wire then
        (case public_wire_name (snd conn) of
           Some n \<Rightarrow> n
         | None \<Rightarrow> find_better_wirename_loop conns wire)
      else find_better_wirename_loop conns wire)"

definition find_better_wirename :: "rtl_module \<Rightarrow> wire_ref \<Rightarrow> string" where
  "find_better_wirename m wire = find_better_wirename_loop (mod_connections m) wire"

subsection \<open>The five rules of one chunk\<close>

text \<open>
  Each rule is a nest of loops over the current module; the innermost body changes the worklist
  (\<^verbatim>\<open>std::deque\<close>): \<^verbatim>\<open>push_back\<close> appends, \<^verbatim>\<open>push_front\<close> conses. The arguments of
  \<^verbatim>\<open>log\<close> are evaluated whatever the verbosity, so an \<^verbatim>\<open>as_wire()\<close> inside one asserts.
\<close>

type_synonym worklist = "module_sigspec_pair_t list"

definition push_output :: "rtl_module \<Rightarrow> cell \<Rightarrow> worklist \<Rightarrow> worklist outcome" where
  "push_output current_module c q =
     (case getPort c ID_Y of
        Inl e \<Rightarrow> Fail e
      | Inr y \<Rightarrow> Continue (q @ [(mod_name current_module, y)]))"

text \<open>Lines 127 to 153: what is done with a mux port that carries the chunk's wire.\<close>

definition mux_candidate :: "rtl_module \<Rightarrow> cell \<Rightarrow> idstring \<Rightarrow> worklist \<Rightarrow> worklist outcome" where
  "mux_candidate current_module c port_name q =
     (if port_name = ID_S then push_output current_module c q
      else
        (case getPort c ID_S of
           Inl e \<Rightarrow> Fail e
         | Inr s_port \<Rightarrow>
             (case as_wire s_port of
                Inl e \<Rightarrow> Fail e
              | Inr s_wire \<Rightarrow>
                  if contains (ref_name s_wire) ''rstz'' then push_output current_module c q
                  else if is_wire s_port then
                    Return (find_better_wirename current_module s_wire, mod_name current_module)
                  else
                    (case as_chunk s_port of
                       Inl e \<Rightarrow> Fail e
                     | Inr ch \<Rightarrow>
                         (case chunk_wire ch of
                            None \<Rightarrow> Fail Null_pointer
                          | Some w \<Rightarrow>
                              Return (find_better_wirename current_module w,
                                      mod_name current_module))))))"

text \<open>Lines 122 and 123: the selector check of one port of one cell.\<close>

definition mux_port ::
  "design \<Rightarrow> rtl_module \<Rightarrow> wire_ref \<Rightarrow> cell \<Rightarrow> idstring \<times> sigspec \<Rightarrow> worklist \<Rightarrow> worklist outcome" where
  "mux_port d current_module curr_wire c port q =
     (if cell_type c = ID_mux then
        (if wire_named (snd port) (ref_name curr_wire) \<and> cell_input d c (fst port)
         then mux_candidate current_module c (fst port) q
         else Continue q)
      else Continue q)"

definition mux_cell ::
  "design \<Rightarrow> rtl_module \<Rightarrow> wire_ref \<Rightarrow> cell \<Rightarrow> worklist \<Rightarrow> worklist outcome" where
  "mux_cell d current_module curr_wire c q =
     for_each (cell_connections c) (mux_port d current_module curr_wire c) q"

definition selector_check ::
  "design \<Rightarrow> rtl_module \<Rightarrow> wire_ref \<Rightarrow> worklist \<Rightarrow> worklist outcome" where
  "selector_check d current_module curr_wire q =
     for_each (selected_cells current_module) (mux_cell d current_module curr_wire) q"

text \<open>Lines 160 to 178: through the cells that are not module instances.\<close>

definition fanin_output_port ::
  "design \<Rightarrow> rtl_module \<Rightarrow> cell \<Rightarrow> idstring \<times> sigspec \<Rightarrow> worklist \<Rightarrow> worklist outcome" where
  "fanin_output_port d current_module c output_port q =
     (if cell_output d c (fst output_port) then
        (case as_wire (snd output_port) of
           Inl e \<Rightarrow> Fail e
         | Inr w \<Rightarrow> Continue (q @ [(mod_name current_module, snd output_port)]))
      else Continue q)"

definition fanin_port ::
  "design \<Rightarrow> rtl_module \<Rightarrow> wire_ref \<Rightarrow> cell \<Rightarrow> idstring \<times> sigspec \<Rightarrow> worklist \<Rightarrow> worklist outcome" where
  "fanin_port d current_module curr_wire c port q =
     (if wire_named (snd port) (ref_name curr_wire) then
        (if cell_input d c (fst port)
         then for_each (cell_connections c) (fanin_output_port d current_module c) q
         else Continue q)
      else Continue q)"

definition fanin_cell ::
  "design \<Rightarrow> rtl_module \<Rightarrow> wire_ref \<Rightarrow> cell \<Rightarrow> worklist \<Rightarrow> worklist outcome" where
  "fanin_cell d current_module curr_wire c q =
     (case design_module d (cell_type c) of
        Some sub \<Rightarrow> Continue q
      | None \<Rightarrow> for_each (cell_connections c) (fanin_port d current_module curr_wire c) q)"

definition cell_fanin ::
  "design \<Rightarrow> rtl_module \<Rightarrow> wire_ref \<Rightarrow> worklist \<Rightarrow> worklist outcome" where
  "cell_fanin d current_module curr_wire q =
     for_each (selected_cells current_module) (fanin_cell d current_module curr_wire) q"

text \<open>Lines 181 to 191: the direct connections whose right side is the chunk's wire.\<close>

definition direct_connection ::
  "rtl_module \<Rightarrow> wire_ref \<Rightarrow> sigspec \<times> sigspec \<Rightarrow> worklist \<Rightarrow> worklist outcome" where
  "direct_connection current_module curr_wire conn q =
     (if wire_named (snd conn) (ref_name curr_wire) then
        (case as_wire (fst conn) of
           Inl e \<Rightarrow> Fail e
         | Inr w \<Rightarrow> Continue ((mod_name current_module, fst conn) # q))
      else Continue q)"

definition direct_connections ::
  "rtl_module \<Rightarrow> wire_ref \<Rightarrow> worklist \<Rightarrow> worklist outcome" where
  "direct_connections current_module curr_wire q =
     for_each (mod_connections current_module) (direct_connection current_module curr_wire) q"

text \<open>
  Lines 194 to 217: down into a module instance. The wire of the submodule that has the port's
  name is converted to a signal reference; a null pointer is read when there is none.
\<close>

definition submodule_port ::
  "design \<Rightarrow> wire_ref \<Rightarrow> cell \<Rightarrow> rtl_module \<Rightarrow> idstring \<times> sigspec \<Rightarrow> worklist \<Rightarrow> worklist outcome" where
  "submodule_port d curr_wire c submodule port q =
     (if wire_named (snd port) (ref_name curr_wire) then
        (if cell_output d c (fst port) then Continue q
         else
           (case module_wire submodule (fst port) of
              None \<Rightarrow> Fail Null_pointer
            | Some w \<Rightarrow>
                (case getPort c (fst port) of
                   Inl e \<Rightarrow> Fail e
                 | Inr s \<Rightarrow>
                     (case as_wire s of
                        Inl e \<Rightarrow> Fail e
                      | Inr sw \<Rightarrow> Continue ((mod_name submodule, sig_of_wire w) # q)))))
      else Continue q)"

definition submodule_cell ::
  "design \<Rightarrow> wire_ref \<Rightarrow> cell \<Rightarrow> worklist \<Rightarrow> worklist outcome" where
  "submodule_cell d curr_wire c q =
     (case design_module d (cell_type c) of
        None \<Rightarrow> Continue q
      | Some submodule \<Rightarrow> for_each (cell_connections c) (submodule_port d curr_wire c submodule) q)"

definition submodule_fanout ::
  "design \<Rightarrow> rtl_module \<Rightarrow> wire_ref \<Rightarrow> worklist \<Rightarrow> worklist outcome" where
  "submodule_fanout d current_module curr_wire q =
     for_each (selected_cells current_module) (submodule_cell d curr_wire) q"

text \<open>
  Lines 220 to 240: up to the parent. The test \<^verbatim>\<open>module(cell->type) == current_module\<close>
  compares pointers; the model compares the names of the two modules.
\<close>

definition parent_port ::
  "rtl_module \<Rightarrow> wire_ref \<Rightarrow> cell \<Rightarrow> idstring \<times> sigspec \<Rightarrow> worklist \<Rightarrow> worklist outcome" where
  "parent_port parent_module curr_wire c port q =
     (if fst port = ref_name curr_wire then
        (case getPort c (fst port) of
           Inl e \<Rightarrow> Fail e
         | Inr s \<Rightarrow>
             (case as_wire s of
                Inl e \<Rightarrow> Fail e
              | Inr sw \<Rightarrow> Continue ((mod_name parent_module, s) # q)))
      else Continue q)"

definition parent_cell ::
  "design \<Rightarrow> rtl_module \<Rightarrow> rtl_module \<Rightarrow> wire_ref \<Rightarrow> cell \<Rightarrow> worklist \<Rightarrow> worklist outcome" where
  "parent_cell d current_module parent_module curr_wire c q =
     (case design_module d (cell_type c) of
        None \<Rightarrow> Continue q
      | Some m \<Rightarrow>
          if mod_name m = mod_name current_module
          then for_each (cell_connections c) (parent_port parent_module curr_wire c) q
          else Continue q)"

definition ascend_wire ::
  "design \<Rightarrow> (idstring \<rightharpoonup> idstring) \<Rightarrow> rtl_module \<Rightarrow> wire_ref \<Rightarrow> wire \<Rightarrow> worklist \<Rightarrow> worklist outcome" where
  "ascend_wire d pm current_module curr_wire w q =
     (if wire_name w = ref_name curr_wire then
        (case pm (mod_name current_module) of
           None \<Rightarrow> Continue q
         | Some parent_name \<Rightarrow>
             (case design_module d parent_name of
                None \<Rightarrow> Fail Null_module
              | Some parent_module \<Rightarrow>
                  for_each (selected_cells parent_module)
                    (parent_cell d current_module parent_module curr_wire) q))
      else Continue q)"

definition hierarchy_ascent ::
  "design \<Rightarrow> (idstring \<rightharpoonup> idstring) \<Rightarrow> rtl_module \<Rightarrow> wire_ref \<Rightarrow> worklist \<Rightarrow> worklist outcome" where
  "hierarchy_ascent d pm current_module curr_wire q =
     for_each (mod_wires current_module) (ascend_wire d pm current_module curr_wire) q"

text \<open>Lines 104 to 241: one chunk of the current signal reference; a constant is skipped.\<close>

definition explore_chunk ::
  "design \<Rightarrow> (idstring \<rightharpoonup> idstring) \<Rightarrow> rtl_module \<Rightarrow> sigchunk \<Rightarrow> worklist \<Rightarrow> worklist outcome" where
  "explore_chunk d pm current_module curr_chunk q =
     (case chunk_wire curr_chunk of
        None \<Rightarrow> Continue q
      | Some curr_wire \<Rightarrow>
          and_then (selector_check d current_module curr_wire q) (\<lambda>q.
          and_then (cell_fanin d current_module curr_wire q) (\<lambda>q.
          and_then (direct_connections current_module curr_wire q) (\<lambda>q.
          and_then (submodule_fanout d current_module curr_wire q)
            (hierarchy_ascent d pm current_module curr_wire)))))"

subsection \<open>The worklist loop\<close>

text \<open>
  The state of \<^verbatim>\<open>FindNextMuxWorker\<close>: the design its module pointers lead to, the worklist,
  the set of explored pairs and the module-to-parent map. \<open>expansions\<close> is not in the source:
  it records, in order, the pairs that passed the test of line 95 and were expanded.
\<close>

record worker =
  worker_design :: design
  next_to_explore_queue :: worklist
  already_explored_set :: "module_sigspec_pair_t set"
  module_to_parent_map :: "idstring \<rightharpoonup> idstring"
  expansions :: "module_sigspec_pair_t list"

type_synonym search_result = "error + string \<times> string"

datatype step = Stop "search_result \<times> worker" | Go worker

definition NONE :: "string \<times> string" where
  "NONE = (''NONE'', ''NONE'')"

text \<open>
  One turn of the \<^verbatim>\<open>while\<close> loop of \<^verbatim>\<open>find_next_mux\<close> (lines 85 to 242). The worklist that
  is left behind by a return or a failure in the middle of an expansion is not observed by
  anything, and is not recorded.
\<close>

definition find_next_mux_step :: "worker \<Rightarrow> step" where
  "find_next_mux_step st =
     (case next_to_explore_queue st of
        [] \<Rightarrow> Stop (Inr NONE, st)
      | curr_pair # rest \<Rightarrow>
          (let st1 = st\<lparr>next_to_explore_queue := rest\<rparr> in
           case design_module (worker_design st) (fst curr_pair) of
             None \<Rightarrow> Stop (Inl Null_module, st1)
           | Some current_module \<Rightarrow>
               if curr_pair \<in> already_explored_set st then
                 (case as_wire (snd curr_pair) of
                    Inl e \<Rightarrow> Stop (Inl e, st1)
                  | Inr w \<Rightarrow> Go st1)
               else
                 (let st2 = st1\<lparr>already_explored_set := insert curr_pair (already_explored_set st),
                                 expansions := expansions st @ [curr_pair]\<rparr> in
                  if mod_processes current_module \<noteq> [] then Stop (Inl Unexpected_process, st2)
                  else
                    (case for_each (snd curr_pair)
                            (explore_chunk (worker_design st) (module_to_parent_map st) current_module)
                            rest of
                       Continue q \<Rightarrow> Go (st2\<lparr>next_to_explore_queue := q\<rparr>)
                     | Return r \<Rightarrow> Stop (Inr r, st2)
                     | Fail e \<Rightarrow> Stop (Inl e, st2)))))"

text \<open>The loop. \<open>None\<close> is a run that never leaves it.\<close>

partial_function (option) find_next_mux :: "worker \<Rightarrow> (search_result \<times> worker) option" where
  "find_next_mux st =
     (case find_next_mux_step st of
        Stop r \<Rightarrow> Some r
      | Go st' \<Rightarrow> find_next_mux st')"

declare find_next_mux.simps [code]

text \<open>
  The constructor \<^verbatim>\<open>FindNextMuxWorker\<close> (lines 247 to 268): the map, the start wire, the
  search. The start wire is looked up under its public name.
\<close>

definition initial_worker :: "design \<Rightarrow> rtl_module list \<Rightarrow> worklist \<Rightarrow> worker" where
  "initial_worker d all_modules q =
     \<lparr>worker_design = d, next_to_explore_queue = q, already_explored_set = {},
      module_to_parent_map = initialize_module_to_parent_map d all_modules Map.empty,
      expansions = []\<rparr>"

definition FindNextMuxWorker ::
  "design \<Rightarrow> rtl_module \<Rightarrow> rtl_module list \<Rightarrow> string \<Rightarrow> (search_result \<times> worker) option" where
  "FindNextMuxWorker d start_module all_modules start_wire_name =
     (case module_wire start_module (backslash # start_wire_name) of
        None \<Rightarrow> Some (Inl Wire_missing, initial_worker d all_modules [])
      | Some start_wire \<Rightarrow>
          find_next_mux (initial_worker d all_modules [(mod_name start_module, sig_of_wire start_wire)]))"

section \<open>The module dependency orderer\<close>

text \<open>
  Modelled from the spec: the kernel's \<^verbatim>\<open>TopoSort\<close> (kernel/utils.h) is not among the sources at
  hand. Section 4.2 of the specification: "build a directed edge (instantiated \<rightarrow> instantiator)
  for every cell whose type resolves to a module; run a topological sort. Output: an ordered
  sequence guaranteeing every module appears after all modules it instantiates. Failure: if the
  instantiation graph has a cycle, fail". The database maps every node to the nodes that have an
  edge to it, which must come before it. \<open>topo_node\<close> registers a node, \<open>topo_edge\<close>
  registers both ends and the edge. The sort emits, as long as there is one, the first pending
  node whose predecessors have all been emitted; it succeeds when no node is left pending.
\<close>

type_synonym toposort = "(idstring \<times> idstring list) list"

definition topo_node :: "idstring \<Rightarrow> toposort \<Rightarrow> toposort" where
  "topo_node n db = (if map_of db n = None then db @ [(n, [])] else db)"

definition topo_edge :: "idstring \<Rightarrow> idstring \<Rightarrow> toposort \<Rightarrow> toposort" where
  "topo_edge left right db =
     map (\<lambda>entry. if fst entry = right then (fst entry, List.insert left (snd entry)) else entry)
       (topo_node right (topo_node left db))"

definition topo_deps :: "toposort \<Rightarrow> idstring \<Rightarrow> idstring list" where
  "topo_deps db n = (case map_of db n of None \<Rightarrow> [] | Some ds \<Rightarrow> ds)"

definition topo_ready :: "toposort \<Rightarrow> idstring list \<Rightarrow> idstring \<Rightarrow> bool" where
  "topo_ready db emitted n = list_all (\<lambda>dep. dep \<in> set emitted) (topo_deps db n)"

function topo_sort_loop :: "toposort \<Rightarrow> idstring list \<Rightarrow> idstring list \<Rightarrow> bool \<times> idstring list" where
  "topo_sort_loop db pending emitted =
     (case find (topo_ready db emitted) pending of
        None \<Rightarrow> (pending = [], emitted)
      | Some n \<Rightarrow> topo_sort_loop db (removeAll n pending) (emitted @ [n]))"
  by pat_completeness auto
termination
proof (relation "measure (\<lambda>(db, pending, emitted). length pending)")
  show "wf (measure (\<lambda>(db, pending, emitted). length pending))" by simp
next
  fix db :: toposort and pending emitted :: "idstring list" and n
  assume "find (topo_ready db emitted) pending = Some n"
  then have "n \<in> set pending" by (auto simp: find_Some_iff)
  then have "length (removeAll n pending) < length pending"
    by (induction pending) (auto simp: less_Suc_eq_le length_removeAll_less_eq)
  then show "((db, removeAll n pending, emitted @ [n]), (db, pending, emitted))
      \<in> measure (\<lambda>(db, pending, emitted). length pending)" by simp
qed

declare topo_sort_loop.simps [simp del]

definition topo_sort :: "toposort \<Rightarrow> bool \<times> idstring list" where
  "topo_sort db = topo_sort_loop db (map fst db) []"

subsection \<open>Collecting the modules\<close>

text \<open>
  The worklist loop of both passes (pull_control_registers_probes.cc, lines 152 to 166, and lines
  320 to 336 of the tracer's file): a module is taken from the front, registered, and for each
  of its selected cells whose type is a module of the design, that module is put at the back of
  the worklist unless the database has it, and the edge to the instantiating module is
  registered. (The tracer also fills a set \<^verbatim>\<open>non_top_modules\<close>, which nothing reads.) \<open>None\<close> is
  a loop that never ends.
\<close>

definition collect_cell ::
  "design \<Rightarrow> rtl_module \<Rightarrow> cell \<Rightarrow> rtl_module list \<times> toposort \<Rightarrow> rtl_module list \<times> toposort" where
  "collect_cell d m c st =
     (case design_module d (cell_type c) of
        None \<Rightarrow> st
      | Some tpl \<Rightarrow>
          ((if map_of (snd st) (mod_name tpl) = None then fst st @ [tpl] else fst st),
           topo_edge (mod_name tpl) (mod_name m) (snd st)))"

definition collect_step ::
  "design \<Rightarrow> rtl_module \<Rightarrow> rtl_module list \<Rightarrow> toposort \<Rightarrow> rtl_module list \<times> toposort" where
  "collect_step d m rest topo_modules =
     fold (collect_cell d m) (selected_cells m) (rest, topo_node (mod_name m) topo_modules)"

partial_function (option) collect_modules ::
  "design \<Rightarrow> rtl_module list \<times> toposort \<Rightarrow> toposort option" where
  "collect_modules d st =
     (case fst st of
        [] \<Rightarrow> Some (snd st)
      | m # rest \<Rightarrow> collect_modules d (collect_step d m rest (snd st)))"

declare collect_modules.simps [code]

section \<open>The tracer's pass\<close>

text \<open>
  \<^verbatim>\<open>FindNextMussPass::execute\<close> (lines 285 to 374) behind its argument parser, which is outside
  the scope of the specification: the start wire's name and the module filter are given. The
  loop of lines 347 to 366 looks for the one module that has the wire.
\<close>

definition locate_step ::
  "design \<Rightarrow> string \<Rightarrow> string \<Rightarrow> idstring \<Rightarrow> rtl_module option \<times> bool
     \<Rightarrow> (rtl_module option \<times> bool) outcome" where
  "locate_step d start_wire_name module_name n st =
     (case design_module d n of
        None \<Rightarrow> Fail Null_module
      | Some curr_module \<Rightarrow>
          if module_name \<noteq> [] \<and> \<not> contains (mod_name curr_module) module_name then Continue st
          else if module_wire curr_module (backslash # start_wire_name) \<noteq> None then
            (if fst st \<noteq> None then Fail Wire_ambiguous else Continue (Some curr_module, True))
          else Continue (fst st, True))"

definition FindNextMussPass_execute ::
  "design \<Rightarrow> string \<Rightarrow> string \<Rightarrow> (search_result \<times> design) option" where
  "FindNextMussPass_execute d start_wire_name module_name =
     (if selected_modules d = [] then Some (Inl Empty_selection, d)
      else
        (case collect_modules d (selected_modules d, []) of
           None \<Rightarrow> None
         | Some topo_modules \<Rightarrow>
             if \<not> fst (topo_sort topo_modules) then Some (Inl Recursive_modules, d)
             else
               (case for_each (snd (topo_sort topo_modules))
                       (locate_step d start_wire_name module_name) (None, module_name = []) of
                  Fail e \<Rightarrow> Some (Inl e, d)
                | Return r \<Rightarrow> Some (Inr r, d)
                | Continue found \<Rightarrow>
                    if \<not> snd found then Some (Inl Module_missing, d)
                    else
                      (case fst found of
                         None \<Rightarrow> Some (Inl Wire_missing, d)
                       | Some module_with_the_wire \<Rightarrow>
                           map_option (\<lambda>r. (fst r, worker_design (snd r)))
                             (FindNextMuxWorker d module_with_the_wire (selected_modules d)
                                start_wire_name)))))"

section \<open>The probe puller\<close>

text \<open>A loop over a state that stops at the first error and keeps the state reached.\<close>

primrec for_each_state :: "'a list \<Rightarrow> ('a \<Rightarrow> 's \<Rightarrow> error option \<times> 's) \<Rightarrow> 's \<Rightarrow> error option \<times> 's" where
  "for_each_state [] body s = (None, s)"
| "for_each_state (x # xs) body s =
     (case body x s of
        (None, s') \<Rightarrow> for_each_state xs body s'
      | (Some e, s') \<Rightarrow> (Some e, s'))"

definition ID_regstate_cell :: idstring where
  "ID_regstate_cell = backslash # ''regstate_cell''"

definition ID_regstate_cell_wire :: idstring where
  "ID_regstate_cell_wire = backslash # ''regstate_cell_wire''"

definition control_registers_probes_attribute_name :: idstring where
  "control_registers_probes_attribute_name = backslash # ''regstate_cells_probes''"

text \<open>
  Modelled from the spec: the mutators of the kernel's \<^verbatim>\<open>RTLIL::Module\<close> and \<^verbatim>\<open>RTLIL::Cell\<close>
  (kernel/rtlil.cc) are not among the sources at hand. Section 4.1: "add a new wire with a given
  width and directionality; add a new connection; toggle a wire's port directionality; set a
  named boolean marker on a wire or module". Adding a wire under a name that the module already
  uses is an assertion failure of the kernel. \<open>fixup_ports\<close> numbers the port wires from 1 in
  the order of the module's wires and gives the others the number 0.
\<close>

definition count_id :: "rtl_module \<Rightarrow> idstring \<Rightarrow> bool" where
  "count_id m n = (n \<in> set (map wire_name (mod_wires m)) \<or> n \<in> set (map cell_name (mod_cells m))
     \<or> n \<in> set (mod_processes m))"

definition addWire :: "rtl_module \<Rightarrow> wire \<Rightarrow> error option \<times> rtl_module" where
  "addWire m w =
     (if wire_name w = [] \<or> count_id m (wire_name w) then (Some Assert_failed, m)
      else (None, m\<lparr>mod_wires := mod_wires m @ [w]\<rparr>))"

definition connect :: "rtl_module \<Rightarrow> sigspec \<Rightarrow> sigspec \<Rightarrow> rtl_module" where
  "connect m lhs rhs = m\<lparr>mod_connections := mod_connections m @ [(lhs, rhs)]\<rparr>"

fun number_ports :: "wire list \<Rightarrow> int \<Rightarrow> wire list" where
  "number_ports [] i = []"
| "number_ports (w # ws) i =
     (if port_input w \<or> port_output w then w\<lparr>port_id := i\<rparr> # number_ports ws (i + 1)
      else w\<lparr>port_id := 0\<rparr> # number_ports ws i)"

definition fixup_ports :: "rtl_module \<Rightarrow> rtl_module" where
  "fixup_ports m = m\<lparr>mod_wires := number_ports (mod_wires m) 1\<rparr>"

definition setPort :: "cell \<Rightarrow> idstring \<Rightarrow> sigspec \<Rightarrow> cell" where
  "setPort c p sig =
     (if map_of (cell_connections c) p = None
      then c\<lparr>cell_connections := cell_connections c @ [(p, sig)]\<rparr>
      else c\<lparr>cell_connections :=
               map (\<lambda>conn. if fst conn = p then (p, sig) else conn) (cell_connections c)\<rparr>)"

definition module_setPort :: "rtl_module \<Rightarrow> idstring \<Rightarrow> idstring \<Rightarrow> sigspec \<Rightarrow> rtl_module" where
  "module_setPort m cn p sig =
     m\<lparr>mod_cells := map (\<lambda>c. if cell_name c = cn then setPort c p sig else c) (mod_cells m)\<rparr>"

definition set_bool_attribute :: "rtl_module \<Rightarrow> idstring \<Rightarrow> rtl_module" where
  "set_bool_attribute m a = m\<lparr>mod_attributes := List.insert a (mod_attributes m)\<rparr>"

text \<open>The new wire with what lines 77 and 78 (and 97 and 98) set on it.\<close>

definition probe_wire :: "idstring \<Rightarrow> int \<Rightarrow> wire" where
  "probe_wire n wd =
     \<lparr>wire_name = n, wire_width = wd, port_id = 0, port_input = False, port_output = True,
      wire_attributes = [ID_regstate_cell_wire]\<rparr>"

subsection \<open>One module\<close>

text \<open>
  Lines 63 to 82: one chunk of the \<open>Q\<close> port of a tracked register. The state is the module
  and the running chunk number.
\<close>

definition probe_chunk :: "cell \<Rightarrow> sigchunk \<Rightarrow> rtl_module \<times> int \<Rightarrow> error option \<times> rtl_module \<times> int" where
  "probe_chunk curr_cell chunk_it st =
     (case chunk_wire chunk_it of
        None \<Rightarrow> (None, st)
      | Some w \<Rightarrow>
          (let new_wire = probe_wire
                 (register_probe_name (cell_index curr_cell) (snd st) (chunk_offset chunk_it)
                    (chunk_width chunk_it))
                 (chunk_width chunk_it)
           in case addWire (fst st) new_wire of
                (Some e, m) \<Rightarrow> (Some e, m, snd st)
              | (None, m) \<Rightarrow>
                  (None, fixup_ports (connect m (sig_of_wire new_wire) [chunk_it]), snd st + 1)))"

text \<open>Lines 88 to 101: one wire of the instantiated module.\<close>

definition thread_probe :: "cell \<Rightarrow> wire \<Rightarrow> rtl_module \<Rightarrow> error option \<times> rtl_module" where
  "thread_probe curr_cell submodule_wire m =
     (if ID_regstate_cell_wire \<in> set (wire_attributes submodule_wire) then
        (let new_wire = probe_wire
               (submodule_probe_name (wire_name submodule_wire) (cell_name curr_cell)
                  (port_id submodule_wire))
               (wire_width submodule_wire)
         in case addWire m new_wire of
              (Some e, m') \<Rightarrow> (Some e, m')
            | (None, m') \<Rightarrow>
                (None, fixup_ports (module_setPort m' (cell_name curr_cell)
                                      (wire_name submodule_wire) (sig_of_wire new_wire))))
      else (None, m))"

text \<open>
  Lines 56 to 103: one cell. The instantiated module is read in the design as it is when the
  worker starts; it is another module than the one being changed unless a module instantiates
  itself, which the orderer refuses.
\<close>

definition probe_cell :: "design \<Rightarrow> cell \<Rightarrow> rtl_module \<Rightarrow> error option \<times> rtl_module" where
  "probe_cell d curr_cell m =
     (if ID_regstate_cell \<in> set (cell_attributes curr_cell) then
        (case getPort curr_cell ID_Q of
           Inl e \<Rightarrow> (Some e, m)
         | Inr port_q \<Rightarrow>
             (case for_each_state port_q (probe_chunk curr_cell) (m, 0) of
                (e, st) \<Rightarrow> (e, fst st)))
      else
        (case design_module d (cell_type curr_cell) of
           None \<Rightarrow> (None, m)
         | Some submodule \<Rightarrow> for_each_state (mod_wires submodule) (thread_probe curr_cell) m))"

definition create_control_registers_probes :: "design \<Rightarrow> rtl_module \<Rightarrow> error option \<times> rtl_module" where
  "create_control_registers_probes d m =
     (if mod_processes m \<noteq> [] then (Some Unexpected_process, m)
      else
        (case for_each_state (mod_cells m) (probe_cell d) m of
           (Some e, m') \<Rightarrow> (Some e, m')
         | (None, m') \<Rightarrow> (None, set_bool_attribute m' control_registers_probes_attribute_name)))"

subsection \<open>The pass\<close>

text \<open>
  The state of the loop of lines 171 to 174: the design, and the names of the modules handed to
  a worker so far (the second is not in the source; it records the order of processing).
\<close>

definition replace_module :: "design \<Rightarrow> rtl_module \<Rightarrow> design" where
  "replace_module d m =
     d\<lparr>design_modules := map (\<lambda>m'. if mod_name m' = mod_name m then m else m') (design_modules d)\<rparr>"

definition ControlRegistersProbesWorker ::
  "idstring \<Rightarrow> design \<times> idstring list \<Rightarrow> error option \<times> design \<times> idstring list" where
  "ControlRegistersProbesWorker n st =
     (case design_module (fst st) n of
        None \<Rightarrow> (Some Null_module, fst st, snd st @ [n])
      | Some m \<Rightarrow>
          (case create_control_registers_probes (fst st) m of
             (e, m') \<Rightarrow> (e, replace_module (fst st) m', snd st @ [n])))"

definition ControlRegistersProbesPass_execute ::
  "design \<Rightarrow> (error option \<times> design \<times> idstring list) option" where
  "ControlRegistersProbesPass_execute d =
     (if selected_modules d = [] then Some (Some Empty_selection, d, [])
      else
        (case collect_modules d (selected_modules d, []) of
           None \<Rightarrow> None
         | Some topo_modules \<Rightarrow>
             if \<not> fst (topo_sort topo_modules) then Some (Some Recursive_modules, d, [])
             else Some (for_each_state (snd (topo_sort topo_modules)) ControlRegistersProbesWorker
                          (d, []))))"

section \<open>The instantiation relation\<close>

text \<open>
  A module instantiates another one when one of its selected cells has that module's name as
  its type and the design has a module of that name: the test of lines 58, 162, 196 and 329.
\<close>

definition instantiates :: "design \<Rightarrow> rtl_module \<Rightarrow> idstring \<Rightarrow> bool" where
  "instantiates d m child =
     list_ex (\<lambda>c. cell_type c = child \<and> design_module d (cell_type c) \<noteq> None) (selected_cells m)"

text \<open>The modules of a list that instantiate a given module, in the order of the list.\<close>

definition instantiating_modules :: "design \<Rightarrow> rtl_module list \<Rightarrow> idstring \<Rightarrow> rtl_module list" where
  "instantiating_modules d all_modules child = filter (\<lambda>m. instantiates d m child) all_modules"

text \<open>
  The instantiation relation of a design, as pairs (instantiated, instantiator), and the modules
  under analysis: the selected modules and what they instantiate, directly or not.
\<close>

definition inst_rel :: "design \<Rightarrow> (idstring \<times> idstring) set" where
  "inst_rel d = {(child, parent). \<exists>m. design_module d parent = Some m \<and> instantiates d m child}"

definition analysed :: "design \<Rightarrow> idstring set" where
  "analysed d = {n. \<exists>s \<in> set (selected_modules d). (n, mod_name s) \<in> (inst_rel d)\<^sup>*}"

text \<open>The design keeps its modules in a dictionary by name: no two modules have the same name.\<close>

definition wf_design :: "design \<Rightarrow> bool" where
  "wf_design d \<longleftrightarrow> distinct (map mod_name (design_modules d))"

text \<open>The edges of a database, as pairs (predecessor, node).\<close>

definition topo_edges :: "toposort \<Rightarrow> (idstring \<times> idstring) set" where
  "topo_edges db = {(dep, n). dep \<in> set (topo_deps db n)}"

text \<open>A sequence in which every element comes after all its predecessors.\<close>

definition topo_ordered :: "toposort \<Rightarrow> idstring list \<Rightarrow> bool" where
  "topo_ordered db xs \<longleftrightarrow>
     (\<forall>i < length xs. \<forall>dep \<in> set (topo_deps db (xs ! i)). dep \<in> set (take i xs))"

text \<open>
  The invariant of the loop that collects the modules. The worklist holds modules of the design;
  the edges of the database are instantiations, and their sources are nodes; a node that is not
  waiting in the worklist has all its instantiations as edges; no node is registered twice; the
  selected modules are nodes or waiting; nodes and waiting modules are under analysis.
\<close>

definition collect_inv :: "design \<Rightarrow> rtl_module list \<times> toposort \<Rightarrow> bool" where
  "collect_inv d st \<longleftrightarrow>
     set (fst st) \<subseteq> set (design_modules d)
     \<and> topo_edges (snd st) \<subseteq> inst_rel d
     \<and> fst ` topo_edges (snd st) \<subseteq> fst ` set (snd st)
     \<and> (\<forall>n \<in> fst ` set (snd st).
           n \<in> mod_name ` set (fst st)
           \<or> (\<forall>child. (child, n) \<in> inst_rel d \<longrightarrow> (child, n) \<in> topo_edges (snd st)))
     \<and> distinct (map fst (snd st))
     \<and> mod_name ` set (selected_modules d) \<subseteq> fst ` set (snd st) \<union> mod_name ` set (fst st)
     \<and> fst ` set (snd st) \<union> mod_name ` set (fst st) \<subseteq> analysed d"

text \<open>The edges that the cells of a module add to the database.\<close>

definition new_edges :: "design \<Rightarrow> rtl_module \<Rightarrow> cell list \<Rightarrow> (idstring \<times> idstring) set" where
  "new_edges d m cs = {(cell_type c, mod_name m) |c. c \<in> set cs \<and> design_module d (cell_type c) \<noteq> None}"

text \<open>
  What the probe puller may do to the wires of a module: keep the module's name, and add wires
  whose names come out of \<open>sanitize_wire_name\<close>.
\<close>

definition wire_names :: "rtl_module \<Rightarrow> idstring set" where
  "wire_names m = set (map wire_name (mod_wires m))"

definition probe_names_only :: "rtl_module \<Rightarrow> rtl_module \<Rightarrow> bool" where
  "probe_names_only m m' \<longleftrightarrow>
     mod_name m' = mod_name m \<and> wire_names m' \<subseteq> wire_names m \<union> range sanitize_wire_name"

section \<open>Shapes of signal references\<close>

text \<open>
  A signal reference refers to a wire when one of its chunks is backed by a wire of that name.
  It is a bit-range when it is one chunk narrower or wider than its wire, a concatenation when it
  has two chunks or more.
\<close>

definition refers_to :: "sigspec \<Rightarrow> idstring \<Rightarrow> bool" where
  "refers_to s n = list_ex (\<lambda>ch. case chunk_wire ch of Some w \<Rightarrow> ref_name w = n | None \<Rightarrow> False) s"

definition bit_range_or_concatenation :: "sigspec \<Rightarrow> bool" where
  "bit_range_or_concatenation s =
     (case s of
        [] \<Rightarrow> False
      | [ch] \<Rightarrow> (case chunk_wire ch of Some w \<Rightarrow> chunk_width ch \<noteq> ref_width w | None \<Rightarrow> False)
      | ch # ch' # chs \<Rightarrow> True)"

section \<open>Example designs\<close>

definition example_wire :: "string \<Rightarrow> int \<Rightarrow> wire" where
  "example_wire n wd =
     \<lparr>wire_name = backslash # n, wire_width = wd, port_id = 0, port_input = False,
      port_output = False, wire_attributes = []\<rparr>"

definition example_ref :: "string \<Rightarrow> int \<Rightarrow> wire_ref" where
  "example_ref n wd = WireRef (backslash # n) wd"

definition example_sig :: "string \<Rightarrow> sigspec" where
  "example_sig n = sig_of_wire (example_wire n 1)"

text \<open>Bits \<open>off\<close> to \<open>off + wd - 1\<close> of a wire of width \<open>full\<close>.\<close>

definition example_slice :: "string \<Rightarrow> int \<Rightarrow> int \<Rightarrow> int \<Rightarrow> sigspec" where
  "example_slice n full off wd = [SigChunk (Some (example_ref n full)) [] wd off]"

definition ID_A :: idstring where "ID_A = backslash # ''A''"
definition ID_B :: idstring where "ID_B = backslash # ''B''"
definition ID_D :: idstring where "ID_D = backslash # ''D''"

definition example_celltypes :: "(idstring \<times> idstring list \<times> idstring list) list" where
  "example_celltypes =
     [(ID_mux, [ID_A, ID_B, ID_S], [ID_Y]),
      (''$not'', [ID_A], [ID_Y]),
      (''$and'', [ID_A, ID_B], [ID_Y]),
      (''$dff'', [backslash # ''CLK'', ID_D], [ID_Q])]"

definition example_mux :: "string \<Rightarrow> int \<Rightarrow> sigspec \<Rightarrow> sigspec \<Rightarrow> sigspec \<Rightarrow> sigspec \<Rightarrow> cell" where
  "example_mux n i a b s y =
     \<lparr>cell_name = CHR ''$'' # n, cell_index = i, cell_type = ID_mux,
      cell_connections = [(ID_A, a), (ID_B, b), (ID_S, s), (ID_Y, y)],
      cell_attributes = [], cell_selected = True\<rparr>"

text \<open>
  The scenario of the specification: \<open>data_in\<close> feeds \<open>sel1\<close>, whose select line is
  \<open>rstz_ctrl\<close>; the output of \<open>sel1\<close> feeds \<open>sel2\<close>, whose select line is
  \<open>mode_sel\<close>.
\<close>

definition example_sel1 :: cell where
  "example_sel1 =
     example_mux ''sel1'' 1 (example_sig ''data_in'') (example_sig ''zero'')
       (example_sig ''rstz_ctrl'') (example_sig ''mid'')"

definition example_sel2 :: cell where
  "example_sel2 =
     example_mux ''sel2'' 2 (example_sig ''mid'') (example_sig ''zero'')
       (example_sig ''mode_sel'') (example_sig ''out'')"

definition example_top :: rtl_module where
  "example_top =
     \<lparr>mod_name = backslash # ''top'',
      mod_wires = map (\<lambda>n. example_wire n 1)
        [''data_in'', ''zero'', ''rstz_ctrl'', ''mid'', ''mode_sel'', ''out''],
      mod_cells = [example_sel1, example_sel2],
      mod_connections = [], mod_processes = [], mod_attributes = [], mod_selected = True\<rparr>"

definition example_design :: design where
  "example_design = \<lparr>design_modules = [example_top], celltypes = example_celltypes\<rparr>"

text \<open>
  A selector that sees the two-bit wire \<open>bus\<close> only as a bit-range on \<open>A\<close> and inside a
  concatenation on \<open>B\<close>, and one whose select line is a bit-range of \<open>bus\<close>.
\<close>

definition example_sliced_mux :: cell where
  "example_sliced_mux =
     example_mux ''sel3'' 3 (example_slice ''bus'' 2 0 1)
       (example_slice ''bus'' 2 1 1 @ example_sig ''zero'')
       (example_sig ''mode_sel'') (example_sig ''out'')"

definition example_sliced_select_mux :: cell where
  "example_sliced_select_mux =
     example_mux ''sel4'' 4 (example_sig ''data_in'') (example_sig ''zero'')
       (example_slice ''bus'' 2 0 1) (example_sig ''out'')"

text \<open>The worker at the start of a trace from \<open>data_in\<close>.\<close>

definition example_start :: worker where
  "example_start =
     initial_worker example_design (selected_modules example_design)
       [(mod_name example_top, example_sig ''data_in'')]"

text \<open>
  Hierarchies. In \<open>example_chain\<close>, \<open>A\<close> instantiates \<open>B\<close> and \<open>B\<close> instantiates
  \<open>C\<close>, which holds a tracked register. In \<open>example_cycle\<close>, \<open>A\<close> and \<open>B\<close>
  instantiate each other. In \<open>example_shared\<close>, \<open>A\<close> and \<open>B\<close> both instantiate \<open>C\<close>.
\<close>

definition example_instance :: "string \<Rightarrow> int \<Rightarrow> string \<Rightarrow> cell" where
  "example_instance n i t =
     \<lparr>cell_name = backslash # n, cell_index = i, cell_type = backslash # t,
      cell_connections = [], cell_attributes = [], cell_selected = True\<rparr>"

definition example_register :: cell where
  "example_register =
     \<lparr>cell_name = CHR ''$'' # ''reg'', cell_index = 7, cell_type = ''$dff'',
      cell_connections = [(backslash # ''CLK'', example_sig ''clk''), (ID_D, example_sig ''next''),
                          (ID_Q, example_sig ''state'')],
      cell_attributes = [ID_regstate_cell], cell_selected = True\<rparr>"

definition example_module :: "string \<Rightarrow> string list \<Rightarrow> cell list \<Rightarrow> rtl_module" where
  "example_module n ws cs =
     \<lparr>mod_name = backslash # n, mod_wires = map (\<lambda>n. example_wire n 1) ws, mod_cells = cs,
      mod_connections = [], mod_processes = [], mod_attributes = [], mod_selected = True\<rparr>"

definition example_chain :: design where
  "example_chain =
     \<lparr>design_modules =
        [example_module ''A'' [] [example_instance ''b0'' 1 ''B''],
         example_module ''B'' [] [example_instance ''c0'' 2 ''C''],
         example_module ''C'' [''clk'', ''next'', ''state''] [example_register]],
      celltypes = example_celltypes\<rparr>"

definition example_cycle :: design where
  "example_cycle =
     \<lparr>design_modules =
        [example_module ''A'' [] [example_instance ''b0'' 1 ''B''],
         example_module ''B'' [] [example_instance ''a0'' 2 ''A'']],
      celltypes = example_celltypes\<rparr>"

definition example_shared :: design where
  "example_shared =
     \<lparr>design_modules =
        [example_module ''A'' [] [example_instance ''c0'' 1 ''C''],
         example_module ''B'' [] [example_instance ''c1'' 2 ''C''],
         example_module ''C'' [] []],
      celltypes = example_celltypes\<rparr>"

text \<open>A worker that finds at the front of its worklist a pair it has explored.\<close>

definition example_revisit :: worker where
  "example_revisit =
     example_start\<lparr>already_explored_set := {(mod_name example_top, example_sig ''data_in'')}\<rparr>"

section \<open>Invariants\<close>

text \<open>The expansions are pairwise different and are the explored pairs.\<close>

definition expanded_once :: "worker \<Rightarrow> bool" where
  "expanded_once st \<longleftrightarrow>
     distinct (expansions st) \<and> set (expansions st) = already_explored_set st"

text \<open>
  The pairs that an expansion can put on the worklist: a module of the design with a signal
  reference found in that module, at a port of one of its cells, on the left of one of its
  direct connections, or as the whole of one of its wires.
\<close>

definition module_sigs :: "rtl_module \<Rightarrow> sigspec set" where
  "module_sigs m =
     (\<Union>c \<in> set (mod_cells m). snd ` set (cell_connections c))
     \<union> fst ` set (mod_connections m) \<union> sig_of_wire ` set (mod_wires m)"

definition design_nodes :: "design \<Rightarrow> module_sigspec_pair_t set" where
  "design_nodes d = (\<Union>m \<in> set (design_modules d). {mod_name m} \<times> module_sigs m)"

text \<open>
  The measure of the worklist loop: the number of pairs of the design or the worklist that are
  not explored, then the length of the worklist.
\<close>

definition unexplored :: "worker \<Rightarrow> module_sigspec_pair_t set" where
  "unexplored st =
     (design_nodes (worker_design st) \<union> set (next_to_explore_queue st)) - already_explored_set st"

definition worker_measure :: "worker \<Rightarrow> nat \<times> nat" where
  "worker_measure st = (card (unexplored st), length (next_to_explore_queue st))"

text \<open>
  The measure of the loop that collects the modules: twice the number of modules of the design
  that the database does not have, plus the length of the worklist.
\<close>

definition collect_measure :: "design \<Rightarrow> rtl_module list \<times> toposort \<Rightarrow> nat" where
  "collect_measure d st =
     2 * card (set (map mod_name (design_modules d)) - fst ` set (snd st)) + length (fst st)"

text \<open>A combinational loop through two inverters, with no selector.\<close>

definition example_not :: "string \<Rightarrow> int \<Rightarrow> sigspec \<Rightarrow> sigspec \<Rightarrow> cell" where
  "example_not n i a y =
     \<lparr>cell_name = CHR ''$'' # n, cell_index = i, cell_type = ''$not'',
      cell_connections = [(ID_A, a), (ID_Y, y)], cell_attributes = [], cell_selected = True\<rparr>"

definition example_feedback :: design where
  "example_feedback =
     \<lparr>design_modules =
        [example_module ''loop'' [''a'', ''b'']
           [example_not ''n1'' 1 (example_sig ''a'') (example_sig ''b''),
            example_not ''n2'' 2 (example_sig ''b'') (example_sig ''a'')]],
      celltypes = example_celltypes\<rparr>"

section \<open>The names of the probes of a module\<close>

text \<open>
  The naming rule, stated on its own: these definitions are not embeddings of the loops of the
  worker (\<open>probe_chunk\<close>, \<open>thread_probe\<close>, \<open>probe_cell\<close> and
  \<open>create_control_registers_probes\<close> above), which are compared with them further down. For
  a tracked register: one name for each chunk of the \<open>Q\<close> port that is backed by a wire, made
  of the identifier index of the cell, the rank of the chunk among those chunks, its offset and
  its end. For an instance of a module: one name for each wire of that module that is marked as
  a probe, made of that wire's name, the name of the instantiating cell and that wire's port
  number.
\<close>

definition wire_chunks :: "sigspec \<Rightarrow> sigchunk list" where
  "wire_chunks sig = filter (\<lambda>ch. chunk_wire ch \<noteq> None) sig"

definition chunk_probe_names :: "cell \<Rightarrow> nat \<Rightarrow> sigchunk list \<Rightarrow> idstring list" where
  "chunk_probe_names c n chs =
     map (\<lambda>kc. register_probe_name (cell_index c) (int (fst kc)) (chunk_offset (snd kc))
                 (chunk_width (snd kc)))
       (enumerate n chs)"

definition register_probe_names :: "cell \<Rightarrow> sigspec \<Rightarrow> idstring list" where
  "register_probe_names c port_q = chunk_probe_names c 0 (wire_chunks port_q)"

definition threaded_probe_names :: "cell \<Rightarrow> rtl_module \<Rightarrow> idstring list" where
  "threaded_probe_names c submodule =
     map (\<lambda>sw. submodule_probe_name (wire_name sw) (cell_name c) (port_id sw))
       (filter (\<lambda>sw. ID_regstate_cell_wire \<in> set (wire_attributes sw)) (mod_wires submodule))"

definition cell_probe_names :: "design \<Rightarrow> cell \<Rightarrow> idstring list" where
  "cell_probe_names d c =
     (if ID_regstate_cell \<in> set (cell_attributes c) then
        (case getPort c ID_Q of Inl e \<Rightarrow> [] | Inr port_q \<Rightarrow> register_probe_names c port_q)
      else
        (case design_module d (cell_type c) of
           None \<Rightarrow> []
         | Some submodule \<Rightarrow> threaded_probe_names c submodule))"

definition module_probe_names :: "design \<Rightarrow> rtl_module \<Rightarrow> idstring list" where
  "module_probe_names d m = concat (map (cell_probe_names d) (mod_cells m))"

text \<open>
  A list that has grown by an initial part of the given elements, and by all of them when there
  was no error.
\<close>

definition grown_by :: "'a list \<Rightarrow> 'a list \<Rightarrow> error option \<Rightarrow> 'a list \<Rightarrow> bool" where
  "grown_by old new e added \<longleftrightarrow>
     (\<exists>j. new = old @ take j added) \<and> (e = None \<longrightarrow> new = old @ added)"

text \<open>A module instantiates another one through any of its cells, selected or not.\<close>

definition instantiates_any :: "design \<Rightarrow> rtl_module \<Rightarrow> idstring \<Rightarrow> bool" where
  "instantiates_any d m child =
     list_ex (\<lambda>c. cell_type c = child \<and> design_module d (cell_type c) \<noteq> None) (mod_cells m)"

section \<open>Further example designs\<close>

text \<open>
  A register whose \<open>Q\<close> port is bits 0 and 1 of \<open>x\<close>, a constant bit, and bits 2 and 3 of
  \<open>y\<close>, in a module of its own.
\<close>

definition example_wide_register :: cell where
  "example_wide_register =
     \<lparr>cell_name = CHR ''$'' # ''wide'', cell_index = 9, cell_type = ''$dff'',
      cell_connections =
        [(ID_Q, example_slice ''x'' 4 0 2 @ [SigChunk None [S1] 1 0] @ example_slice ''y'' 4 2 2)],
      cell_attributes = [ID_regstate_cell], cell_selected = True\<rparr>"

definition example_wide_module :: rtl_module where
  "example_wide_module =
     \<lparr>mod_name = backslash # ''wide'',
      mod_wires = [example_wire ''x'' 4, example_wire ''y'' 4],
      mod_cells = [example_wide_register],
      mod_connections = [], mod_processes = [], mod_attributes = [], mod_selected = True\<rparr>"

definition example_wide :: design where
  "example_wide = \<lparr>design_modules = [example_wide_module], celltypes = example_celltypes\<rparr>"

text \<open>
  The chain of \<open>example_chain\<close> in which the wire \<open>clk\<close> of \<open>C\<close> is an input port: the
  cells and the \<open>Q\<close> port of the register are the same, and the probe of \<open>C\<close> is its second
  port.
\<close>

definition example_ported_chain :: design where
  "example_ported_chain =
     \<lparr>design_modules =
        [example_module ''A'' [] [example_instance ''b0'' 1 ''B''],
         example_module ''B'' [] [example_instance ''c0'' 2 ''C''],
         (example_module ''C'' [''clk'', ''next'', ''state''] [example_register])
           \<lparr>mod_wires := (example_wire ''clk'' 1)\<lparr>port_id := 1, port_input := True\<rparr>
              # map (\<lambda>n. example_wire n 1) [''next'', ''state'']\<rparr>],
      celltypes = example_celltypes\<rparr>"

text \<open>
  Designs with cells or modules out of the selection. In \<open>example_unselected_cell\<close>, \<open>A\<close>
  and \<open>B\<close> are selected and the cell of \<open>A\<close> that instantiates \<open>B\<close> is not. In
  \<open>example_only_top\<close>, the chain of \<open>example_chain\<close> has only \<open>A\<close> selected: the cells of
  \<open>B\<close> and \<open>C\<close> are out of the selection with their modules. In \<open>example_half_cycle\<close>,
  \<open>A\<close> and \<open>B\<close> are selected and instantiate each other, and the cell of \<open>B\<close> that
  instantiates \<open>A\<close> is not selected.
\<close>

definition unselected_cell :: "cell \<Rightarrow> cell" where
  "unselected_cell c = c\<lparr>cell_selected := False\<rparr>"

definition unselected_module :: "rtl_module \<Rightarrow> rtl_module" where
  "unselected_module m = m\<lparr>mod_cells := map unselected_cell (mod_cells m), mod_selected := False\<rparr>"

definition example_unselected_cell :: design where
  "example_unselected_cell =
     \<lparr>design_modules =
        [example_module ''A'' [''x''] [unselected_cell (example_instance ''b0'' 1 ''B'')],
         example_module ''B'' [] []],
      celltypes = example_celltypes\<rparr>"

definition example_only_top :: design where
  "example_only_top =
     \<lparr>design_modules =
        [example_module ''A'' [] [example_instance ''b0'' 1 ''B''],
         unselected_module (example_module ''B'' [] [example_instance ''c0'' 2 ''C'']),
         unselected_module (example_module ''C'' [''clk'', ''next'', ''state''] [example_register])],
      celltypes = example_celltypes\<rparr>"

definition example_half_cycle :: design where
  "example_half_cycle =
     \<lparr>design_modules =
        [example_module ''A'' [''x''] [example_instance ''b0'' 1 ''B''],
         example_module ''B'' [''y''] [unselected_cell (example_instance ''a0'' 2 ''A'')]],
      celltypes = example_celltypes\<rparr>"

section \<open>Properties of the probe names\<close>

lemma sanitize_loop_filter: "sanitize_loop s ret = ret @ filter (\<lambda>c. \<not> is_stripped c) s"
  by (induction s arbitrary: ret) auto

lemma digit_char_kept: "n < 10 \<Longrightarrow> \<not> is_stripped (digit_char n)"
proof -
  assume "n < 10"
  then have "n \<in> {0, 1, 2, 3, 4, 5, 6, 7, 8, 9}" by auto
  then show ?thesis
    by (auto simp: is_stripped_def digit_char_def backslash_def)
qed

lemma nat_digits_kept: "c \<in> set (nat_digits n) \<Longrightarrow> \<not> is_stripped c"
proof (induction n rule: nat_digits.induct)
  case (1 n)
  show ?case
  proof (cases "n < 10")
    case True
    with "1.prems" show ?thesis
      by (simp add: nat_digits.simps [of n] digit_char_kept)
  next
    case False
    from "1.prems" False have "c \<in> set (nat_digits (n div 10)) \<or> c = digit_char (n mod 10)"
      by (subst (asm) nat_digits.simps) auto
    then show ?thesis
      using "1.IH" False digit_char_kept [of "n mod 10"] by auto
  qed
qed

lemma to_string_kept: "c \<in> set (to_string i) \<Longrightarrow> \<not> is_stripped c"
  by (auto simp: to_string_def dest: nat_digits_kept split: if_splits) (simp add: is_stripped_def backslash_def)

lemma filter_kept: "(\<And>c. c \<in> set s \<Longrightarrow> \<not> is_stripped c) \<Longrightarrow> filter (\<lambda>c. \<not> is_stripped c) s = s"
  by (induction s) auto

lemma raw_name_kept: "c \<in> set (register_probe_raw_name i k off w) \<Longrightarrow> \<not> is_stripped c"
  unfolding register_probe_raw_name_def
  by (auto dest: to_string_kept) (simp_all add: is_stripped_def backslash_def)

lemma sanitized_shape:
  "register_probe_name index chunk_id offset width
      = backslash # register_probe_raw_name index chunk_id offset width
   \<and> hd (sanitize_wire_name s) = backslash
   \<and> set (tl (sanitize_wire_name s)) \<inter> Collect is_stripped = {}"
proof -
  have "filter (\<lambda>c. \<not> is_stripped c) (register_probe_raw_name index chunk_id offset width)
      = register_probe_raw_name index chunk_id offset width"
    by (rule filter_kept) (rule raw_name_kept)
  then show ?thesis
    by (auto simp: register_probe_name_def sanitize_wire_name_def sanitize_loop_filter)
qed

section \<open>Properties of the tracer\<close>

subsection \<open>Loops and signal references\<close>

lemma for_each_invariant:
  assumes "for_each xs body q = Continue q'" and "P q"
    and "\<And>x q q'. x \<in> set xs \<Longrightarrow> P q \<Longrightarrow> body x q = Continue q' \<Longrightarrow> P q'"
  shows "P q'"
  using assms
proof (induction xs arbitrary: q)
  case Nil
  then show ?case by simp
next
  case (Cons x xs)
  from Cons.prems(1) obtain q1 where b: "body x q = Continue q1" and r: "for_each xs body q1 = Continue q'"
    by (auto split: outcome.splits)
  have "P q1" using Cons.prems(3) [of x q q1] Cons.prems(2) b by simp
  then show ?case
  proof (rule Cons.IH [OF r])
    fix y qa qb assume "y \<in> set xs" "P qa" "body y qa = Continue qb"
    then show "P qb" using Cons.prems(3) [of y qa qb] by simp
  qed
qed

lemma for_each_Return:
  assumes "for_each xs body q = Return r"
  shows "\<exists>x \<in> set xs. \<exists>q0. body x q0 = Return r"
  using assms
proof (induction xs arbitrary: q)
  case Nil
  then show ?case by simp
next
  case (Cons x xs)
  then show ?case by (fastforce split: outcome.splits)
qed

lemma for_each_skip:
  assumes "\<And>x q. x \<in> set xs \<Longrightarrow> body x q = Continue q"
  shows "for_each xs body q = Continue q"
  using assms by (induction xs) auto


lemma as_wire_single:
  "as_wire [SigChunk ow dat wd off] = Inr w \<longleftrightarrow> ow = Some w \<and> wd = ref_width w"
  by (cases ow) (auto simp: as_wire_def)

lemma as_wire_Inr_iff:
  "as_wire s = Inr w \<longleftrightarrow> (\<exists>dat off. s = [SigChunk (Some w) dat (ref_width w) off])"
proof (cases s)
  case Nil
  then show ?thesis by (simp add: as_wire_def)
next
  case (Cons c cs)
  show ?thesis
  proof (cases cs)
    case Nil
    obtain ow dat wd off where c: "c = SigChunk ow dat wd off" by (cases c)
    show ?thesis unfolding \<open>s = c # cs\<close> Nil c as_wire_single by auto
  next
    case (Cons c2 cs2)
    then show ?thesis using \<open>s = c # cs\<close> by (simp add: as_wire_def)
  qed
qed

lemma as_wire_Inl: "as_wire s = Inl e \<Longrightarrow> e = Assert_failed"
  by (auto simp: as_wire_def split: list.splits option.splits if_splits)

subsection \<open>What the selector check returns\<close>









subsection \<open>Results of a run\<close>

text \<open>Partial correctness of the loop: a property of every stop that a step to a state with the property keeps.\<close>

lemma find_next_mux_induct [consumes 1, case_names Stop Go]:
  assumes "find_next_mux st = Some y"
    and stop: "\<And>st r. find_next_mux_step st = Stop r \<Longrightarrow> P st r"
    and go: "\<And>st st' r. find_next_mux_step st = Go st' \<Longrightarrow> P st' r \<Longrightarrow> P st r"
  shows "P st y"
proof (rule find_next_mux.raw_induct [where P = P, OF _ assms(1)])
  fix f :: "worker \<Rightarrow> (search_result \<times> worker) option" and st y
  assume ih: "\<And>x y. f x = Some y \<Longrightarrow> P x y"
    and eq: "(case find_next_mux_step st of Stop r \<Rightarrow> Some r | Go st' \<Rightarrow> f st') = Some y"
  show "P st y"
  proof (cases "find_next_mux_step st")
    case (Stop r)
    with eq have "y = r" by simp
    with Stop stop show ?thesis by simp
  next
    case (Go st')
    with eq have "f st' = Some y" by simp
    then have "P st' y" by (rule ih)
    with Go show ?thesis by (rule go)
  qed
qed
















lemma selector_check_Return:
  assumes "selector_check d m cw q = Return r"
  shows "\<exists>c \<in> set (selected_cells m). \<exists>port \<in> set (cell_connections c). \<exists>q0.
           mux_port d m cw c port q0 = Return r"
proof -
  from assms obtain c q1 where c: "c \<in> set (selected_cells m)" and "mux_cell d m cw c q1 = Return r"
    unfolding selector_check_def by (blast dest: for_each_Return)
  then obtain port q0 where "port \<in> set (cell_connections c)" "mux_port d m cw c port q0 = Return r"
    unfolding mux_cell_def by (blast dest: for_each_Return)
  with c show ?thesis by blast
qed

lemma design_module_Some:
  "design_module d n = Some m \<Longrightarrow> m \<in> set (design_modules d) \<and> mod_name m = n"
  by (auto simp: design_module_def find_Some_iff)


lemma step_Go_design: "find_next_mux_step st = Go st' \<Longrightarrow> worker_design st' = worker_design st"
  by (auto simp: find_next_mux_step_def Let_def split: list.splits option.splits if_splits sum.splits outcome.splits)

lemma step_Go_parent_map:
  "find_next_mux_step st = Go st' \<Longrightarrow> module_to_parent_map st' = module_to_parent_map st"
  by (auto simp: find_next_mux_step_def Let_def split: list.splits option.splits if_splits sum.splits outcome.splits)

lemma step_Stop_design:
  "find_next_mux_step st = Stop (res, st') \<Longrightarrow> worker_design st' = worker_design st"
  by (auto simp: find_next_mux_step_def Let_def split: list.splits option.splits if_splits sum.splits outcome.splits)

lemma find_next_mux_design:
  assumes "find_next_mux st = Some y"
  shows "worker_design (snd y) = worker_design st"
  using assms
proof (induction rule: find_next_mux_induct)
  case (Stop st r)
  then show ?case by (cases r) (simp add: step_Stop_design)
next
  case (Go st st' r)
  then show ?case by (simp add: step_Go_design)
qed



subsection \<open>Whole wires only\<close>

lemma wire_named_iff:
  "wire_named s n \<longleftrightarrow> (\<exists>wd dat off. s = [SigChunk (Some (WireRef n wd)) dat wd off])"
proof
  assume "wire_named s n"
  then obtain w where "as_wire s = Inr w" "ref_name w = n"
    by (auto simp: wire_named_def split: sum.splits)
  then have "\<exists>dat off. s = [SigChunk (Some (WireRef n (ref_width w))) dat (ref_width w) off]"
    by (cases w) (auto simp: as_wire_Inr_iff)
  then show "\<exists>wd dat off. s = [SigChunk (Some (WireRef n wd)) dat wd off]" by blast
next
  assume "\<exists>wd dat off. s = [SigChunk (Some (WireRef n wd)) dat wd off]"
  then show "wire_named s n" by (auto simp: wire_named_def as_wire_def)
qed

lemma mux_port_matched:
  assumes "mux_port d m cw c port q \<noteq> Continue q"
  shows "cell_type c = ID_mux \<and> cell_input d c (fst port) \<and> wire_named (snd port) (ref_name cw)"
  using assms by (auto simp: mux_port_def split: if_splits)

lemma not_wire_named:
  assumes "refers_to s n \<longrightarrow> bit_range_or_concatenation s"
  shows "\<not> wire_named s n"
proof
  assume "wire_named s n"
  then obtain wd dat off where "s = [SigChunk (Some (WireRef n wd)) dat wd off]"
    unfolding wire_named_iff by blast
  then have "refers_to s n" "\<not> bit_range_or_concatenation s"
    by (simp_all add: refers_to_def bit_range_or_concatenation_def)
  with assms show False by simp
qed

lemma mux_cell_unmatched:
  assumes "\<forall>port \<in> set (cell_connections c).
     refers_to (snd port) (ref_name cw) \<longrightarrow> bit_range_or_concatenation (snd port)"
  shows "mux_cell d m cw c q = Continue q"
  unfolding mux_cell_def
proof (rule for_each_skip)
  fix port q0 assume "port \<in> set (cell_connections c)"
  with assms have "\<not> wire_named (snd port) (ref_name cw)" by (simp add: not_wire_named)
  then show "mux_port d m cw c port q0 = Continue q0" by (simp add: mux_port_def)
qed

text \<open>
  C9. A port of a cell takes part in the selector check (the body of the loop does anything else
  than go on with the worklist as it was) only when the cell is a \<^verbatim>\<open>$mux\<close>, the port is one of its
  inputs and the connection is one chunk that is the whole of a wire named as the chunk's wire.
  A selector that refers to the traced wire only through bit-ranges and concatenations leaves the
  worklist as it was and returns nothing; and a result of the selector check always comes from a
  port connected to the whole wire.
\<close>

theorem selector_check_whole_wire_only:
  "(mux_port d m cw c port q \<noteq> Continue q \<longrightarrow>
      cell_type c = ID_mux \<and> cell_input d c (fst port) \<and>
      (\<exists>wd dat off. snd port = [SigChunk (Some (WireRef (ref_name cw) wd)) dat wd off]))
   \<and> ((\<forall>port \<in> set (cell_connections c).
          refers_to (snd port) (ref_name cw) \<longrightarrow> bit_range_or_concatenation (snd port)) \<longrightarrow>
        mux_cell d m cw c q = Continue q)
   \<and> (selector_check d m cw q = Return r \<longrightarrow>
        (\<exists>c \<in> set (selected_cells m). \<exists>port \<in> set (cell_connections c).
           cell_type c = ID_mux \<and> cell_input d c (fst port) \<and>
           (\<exists>wd dat off. snd port = [SigChunk (Some (WireRef (ref_name cw) wd)) dat wd off])))"
proof (intro conjI impI)
  assume "mux_port d m cw c port q \<noteq> Continue q"
  from mux_port_matched [OF this]
  show "cell_type c = ID_mux" "cell_input d c (fst port)"
    "\<exists>wd dat off. snd port = [SigChunk (Some (WireRef (ref_name cw) wd)) dat wd off]"
    by (simp_all add: wire_named_iff)
next
  assume "\<forall>port \<in> set (cell_connections c).
     refers_to (snd port) (ref_name cw) \<longrightarrow> bit_range_or_concatenation (snd port)"
  then show "mux_cell d m cw c q = Continue q" by (rule mux_cell_unmatched)
next
  assume "selector_check d m cw q = Return r"
  from selector_check_Return [OF this] obtain c port q0
    where c: "c \<in> set (selected_cells m)" "port \<in> set (cell_connections c)"
      and "mux_port d m cw c port q0 = Return r" by blast
  then have "mux_port d m cw c port q0 \<noteq> Continue q0" by simp
  from mux_port_matched [OF this] c
  show "\<exists>c \<in> set (selected_cells m). \<exists>port \<in> set (cell_connections c).
           cell_type c = ID_mux \<and> cell_input d c (fst port) \<and>
           (\<exists>wd dat off. snd port = [SigChunk (Some (WireRef (ref_name cw) wd)) dat wd off])"
    unfolding wire_named_iff by blast
qed

theorem selector_check_whole_wire_only_witness:
  "mux_port example_design example_top (example_ref ''data_in'' 1) example_sel2
       (ID_A, example_sig ''mid'') [] = Continue []
   \<and> mux_port example_design example_top (example_ref ''mid'' 1) example_sel2
       (ID_A, example_sig ''mid'') [] \<noteq> Continue []
   \<and> example_sig ''mid'' = [SigChunk (Some (WireRef (ref_name (example_ref ''mid'' 1)) 1)) [] 1 0]
   \<and> map (\<lambda>port. (fst port, refers_to (snd port) (ref_name (example_ref ''bus'' 2)),
                    bit_range_or_concatenation (snd port)))
         (cell_connections example_sliced_mux)
       = [(ID_A, True, True), (ID_B, True, True), (ID_S, False, False), (ID_Y, False, False)]
   \<and> mux_cell example_design example_top (example_ref ''bus'' 2) example_sliced_mux [] = Continue []
   \<and> selector_check example_design example_top (example_ref ''mid'' 1) []
        = Return (backslash # ''mode_sel'', backslash # ''top'')
   \<and> (\<exists>c \<in> set (selected_cells example_top). \<exists>port \<in> set (cell_connections c).
           cell_type c = ID_mux \<and> cell_input example_design c (fst port) \<and>
           (\<exists>wd dat off. snd port
              = [SigChunk (Some (WireRef (ref_name (example_ref ''mid'' 1)) wd)) dat wd off]))"
proof -
  have a: "mux_port example_design example_top (example_ref ''data_in'' 1) example_sel2
       (ID_A, example_sig ''mid'') [] = Continue []" by code_simp
  have b: "mux_port example_design example_top (example_ref ''mid'' 1) example_sel2
       (ID_A, example_sig ''mid'') [] \<noteq> Continue []" by code_simp
  have c: "example_sig ''mid'' = [SigChunk (Some (WireRef (ref_name (example_ref ''mid'' 1)) 1)) [] 1 0]"
    by code_simp
  have h: "\<forall>port \<in> set (cell_connections example_sliced_mux).
          refers_to (snd port) (ref_name (example_ref ''bus'' 2)) \<longrightarrow>
          bit_range_or_concatenation (snd port)" by code_simp
  have h': "map (\<lambda>port. (fst port, refers_to (snd port) (ref_name (example_ref ''bus'' 2)),
                    bit_range_or_concatenation (snd port)))
         (cell_connections example_sliced_mux)
       = [(ID_A, True, True), (ID_B, True, True), (ID_S, False, False), (ID_Y, False, False)]"
    by code_simp
  have r: "selector_check example_design example_top (example_ref ''mid'' 1) []
        = Return (backslash # ''mode_sel'', backslash # ''top'')" by code_simp
  note inst = selector_check_whole_wire_only [of example_design example_top _ _ _ "[]"]
  from inst [of "example_ref ''bus'' 2" example_sliced_mux] h
  have e: "mux_cell example_design example_top (example_ref ''bus'' 2) example_sliced_mux [] = Continue []"
    by blast
  from inst [of "example_ref ''mid'' 1"] r
  have f: "\<exists>c \<in> set (selected_cells example_top). \<exists>port \<in> set (cell_connections c).
           cell_type c = ID_mux \<and> cell_input example_design c (fst port) \<and>
           (\<exists>wd dat off. snd port
              = [SigChunk (Some (WireRef (ref_name (example_ref ''mid'' 1)) wd)) dat wd off])"
    by blast
  from a b c h' e r f show ?thesis by blast
qed

subsection \<open>The select port read as a wire\<close>

lemma push_output_not_Assert: "push_output m c q \<noteq> Fail Assert_failed"
  by (simp add: push_output_def getPort_def split: sum.splits option.splits)

lemma mux_candidate_Assert_iff:
  assumes "p \<noteq> ID_S" "getPort c ID_S = Inr s"
  shows "mux_candidate m c p q = Fail Assert_failed \<longleftrightarrow> \<not> is_wire s"
proof (cases "as_wire s")
  case (Inl e)
  then have "e = Assert_failed" by (rule as_wire_Inl)
  with Inl assms show ?thesis by (simp add: mux_candidate_def is_wire_def)
next
  case (Inr sw)
  then have "is_wire s" by (simp add: is_wire_def)
  with Inr assms show ?thesis by (simp add: mux_candidate_def push_output_not_Assert)
qed

text \<open>
  C10. For a selector matched through a data input (a port other than \<open>S\<close>) whose select port
  is connected, the reading of the select connection as a whole wire at line 133 fails exactly
  when that connection is not a single whole wire: the failure branch is unreachable if and only
  if the select port is connected to a whole wire.
\<close>

theorem select_port_as_wire_guard:
  assumes "cell_type c = ID_mux" and "wire_named (snd port) (ref_name cw)"
    and "cell_input d c (fst port)" and "fst port \<noteq> ID_S" and "getPort c ID_S = Inr s"
  shows "mux_port d m cw c port q = Fail Assert_failed \<longleftrightarrow> \<not> is_wire s"
  using assms mux_candidate_Assert_iff [of "fst port" c s m q] by (simp add: mux_port_def)

theorem select_port_as_wire_guard_witness:
  "cell_type example_sliced_select_mux = ID_mux
   \<and> wire_named (snd (ID_A, example_sig ''data_in'')) (ref_name (example_ref ''data_in'' 1))
   \<and> cell_input example_design example_sliced_select_mux (fst (ID_A, example_sig ''data_in''))
   \<and> fst (ID_A, example_sig ''data_in'') \<noteq> ID_S
   \<and> getPort example_sliced_select_mux ID_S = Inr (example_slice ''bus'' 2 0 1)
   \<and> \<not> is_wire (example_slice ''bus'' 2 0 1)
   \<and> mux_port example_design example_top (example_ref ''data_in'' 1) example_sliced_select_mux
        (ID_A, example_sig ''data_in'') [] = Fail Assert_failed"
proof -
  have h1: "cell_type example_sliced_select_mux = ID_mux" by code_simp
  have h2: "wire_named (snd (ID_A, example_sig ''data_in'')) (ref_name (example_ref ''data_in'' 1))"
    by code_simp
  have h3: "cell_input example_design example_sliced_select_mux (fst (ID_A, example_sig ''data_in''))"
    by code_simp
  have h4: "fst (ID_A, example_sig ''data_in'') \<noteq> ID_S" by code_simp
  have h5: "getPort example_sliced_select_mux ID_S = Inr (example_slice ''bus'' 2 0 1)" by code_simp
  have n: "\<not> is_wire (example_slice ''bus'' 2 0 1)" by code_simp
  from select_port_as_wire_guard [OF h1 h2 h3 h4 h5, of example_top "[]"] n
  have "mux_port example_design example_top (example_ref ''data_in'' 1) example_sliced_select_mux
        (ID_A, example_sig ''data_in'') [] = Fail Assert_failed" by simp
  with h1 h2 h3 h4 h5 n show ?thesis by blast
qed

subsection \<open>Reset selects\<close>



section \<open>Properties of the module-to-parent map\<close>

lemma design_module_name: "design_module d n = Some m \<Longrightarrow> mod_name m = n"
  by (simp add: design_module_Some)

lemma parent_map_cell_eq:
  "parent_map_cell d m c pm =
     (if design_module d (cell_type c) \<noteq> None then pm(cell_type c \<mapsto> mod_name m) else pm)"
  by (auto simp: parent_map_cell_def dest: design_module_name split: option.splits)

lemma parent_map_cells_apply:
  "fold (parent_map_cell d m) cs pm child =
     (if list_ex (\<lambda>c. cell_type c = child \<and> design_module d (cell_type c) \<noteq> None) cs
      then Some (mod_name m) else pm child)"
proof (induction cs arbitrary: pm)
  case Nil
  then show ?case by simp
next
  case (Cons c cs)
  have "fold (parent_map_cell d m) (c # cs) pm child
      = fold (parent_map_cell d m) cs (parent_map_cell d m c pm) child" by simp
  also have "\<dots> = (if list_ex (\<lambda>c. cell_type c = child \<and> design_module d (cell_type c) \<noteq> None) cs
      then Some (mod_name m) else parent_map_cell d m c pm child)" by (rule Cons.IH)
  also have "\<dots> = (if list_ex (\<lambda>c. cell_type c = child \<and> design_module d (cell_type c) \<noteq> None) (c # cs)
      then Some (mod_name m) else pm child)"
    by (cases "design_module d (cell_type c)") (auto simp: parent_map_cell_eq)
  finally show ?case .
qed

lemma parent_map_module_apply:
  "parent_map_module d m pm child = (if instantiates d m child then Some (mod_name m) else pm child)"
  by (simp add: parent_map_module_def instantiates_def parent_map_cells_apply)

lemma initialize_map_apply:
  "initialize_module_to_parent_map d all_modules pm child =
     (case rev (instantiating_modules d all_modules child) of
        [] \<Rightarrow> pm child
      | m # ms \<Rightarrow> Some (mod_name m))"
proof (induction all_modules arbitrary: pm rule: rev_induct)
  case Nil
  then show ?case by (simp add: initialize_module_to_parent_map_def instantiating_modules_def)
next
  case (snoc m ms)
  have "initialize_module_to_parent_map d (ms @ [m]) pm child
      = parent_map_module d m (initialize_module_to_parent_map d ms pm) child"
    by (simp add: initialize_module_to_parent_map_def)
  then show ?case
    using snoc.IH [of pm] by (simp add: parent_map_module_apply instantiating_modules_def)
qed

text \<open>
  C2 (as the code has it). Line 59 assigns the entry of the instantiated module at every
  instantiating cell, so a later module overwrites an earlier one: a module instantiated at
  least once by the modules under analysis has one parent in the map, the last of the
  instantiating modules in the order of the construction.
\<close>

theorem parent_map_records_last:
  assumes "instantiating_modules d all_modules child \<noteq> []"
  shows "initialize_module_to_parent_map d all_modules pm child
     = Some (mod_name (last (instantiating_modules d all_modules child)))"
proof -
  from assms obtain m ms where r: "rev (instantiating_modules d all_modules child) = m # ms"
    by (cases "rev (instantiating_modules d all_modules child)") auto
  then have "instantiating_modules d all_modules child = rev ms @ [m]"
    by (simp add: rev_eq_Cons_iff)
  with r show ?thesis by (simp add: initialize_map_apply)
qed

theorem parent_map_records_last_witness:
  "map mod_name (instantiating_modules example_shared (selected_modules example_shared) (backslash # ''C''))
     = [backslash # ''A'', backslash # ''B'']
   \<and> initialize_module_to_parent_map example_shared (selected_modules example_shared) Map.empty
        (backslash # ''C'') = Some (backslash # ''B'')"
proof -
  have l: "map mod_name (instantiating_modules example_shared (selected_modules example_shared)
      (backslash # ''C'')) = [backslash # ''A'', backslash # ''B'']" by code_simp
  then have ne: "instantiating_modules example_shared (selected_modules example_shared)
      (backslash # ''C'') \<noteq> []" by auto
  have "mod_name (last (instantiating_modules example_shared (selected_modules example_shared)
      (backslash # ''C''))) = backslash # ''B''" by code_simp
  with parent_map_records_last [OF ne, of Map.empty] l show ?thesis by simp
qed

text \<open>
  C2 (as stated) fails: in \<open>example_shared\<close> the first module found to instantiate \<open>C\<close> is
  \<open>A\<close>, and the map records \<open>B\<close>.
\<close>

theorem parent_map_first_counterexample:
  "mod_name (hd (instantiating_modules example_shared (selected_modules example_shared)
       (backslash # ''C''))) = backslash # ''A''
   \<and> initialize_module_to_parent_map example_shared (selected_modules example_shared) Map.empty
        (backslash # ''C'') \<noteq> Some (backslash # ''A'')"
  by code_simp

section \<open>Properties of the worklist loop\<close>

subsection \<open>Expanded once\<close>

text \<open>The two ways in which the loop goes on, and the states in which it stops.\<close>

lemma step_Go_cases:
  assumes "find_next_mux_step st = Go st'"
  obtains (skip) node rest where "next_to_explore_queue st = node # rest"
      "node \<in> already_explored_set st" "st' = st\<lparr>next_to_explore_queue := rest\<rparr>"
  | (expand) node rest m q where "next_to_explore_queue st = node # rest"
      "node \<notin> already_explored_set st"
      "design_module (worker_design st) (fst node) = Some m"
      "for_each (snd node) (explore_chunk (worker_design st) (module_to_parent_map st) m) rest
         = Continue q"
      "st' = st\<lparr>next_to_explore_queue := q,
                already_explored_set := insert node (already_explored_set st),
                expansions := expansions st @ [node]\<rparr>"
proof (cases "next_to_explore_queue st")
  case Nil
  with assms show ?thesis by (simp add: find_next_mux_step_def)
next
  case (Cons node rest)
  show ?thesis
  proof (cases "design_module (worker_design st) (fst node)")
    case None
    with Cons assms show ?thesis by (simp add: find_next_mux_step_def)
  next
    case (Some m)
    show ?thesis
    proof (cases "node \<in> already_explored_set st")
      case True
      with Cons Some assms have "st' = st\<lparr>next_to_explore_queue := rest\<rparr>"
        by (simp add: find_next_mux_step_def Let_def split: sum.splits)
      with Cons True show ?thesis by (rule skip)
    next
      case False
      with Cons Some assms obtain q where
        "for_each (snd node) (explore_chunk (worker_design st) (module_to_parent_map st) m) rest
           = Continue q"
        "st' = st\<lparr>next_to_explore_queue := q,
                already_explored_set := insert node (already_explored_set st),
                expansions := expansions st @ [node]\<rparr>"
        by (auto simp: find_next_mux_step_def Let_def split: if_splits outcome.splits)
      with Cons False Some show ?thesis by (rule expand)
    qed
  qed
qed

lemma step_Stop_cases:
  assumes "find_next_mux_step st = Stop (res, st')"
  obtains (same) "st' = st"
  | (popped) node rest where "next_to_explore_queue st = node # rest"
      "st' = st\<lparr>next_to_explore_queue := rest\<rparr>"
  | (expanded) node rest where "next_to_explore_queue st = node # rest"
      "node \<notin> already_explored_set st"
      "st' = st\<lparr>next_to_explore_queue := rest,
                already_explored_set := insert node (already_explored_set st),
                expansions := expansions st @ [node]\<rparr>"
proof (cases "next_to_explore_queue st")
  case Nil
  with assms have "st' = st" by (simp add: find_next_mux_step_def)
  then show ?thesis by (rule same)
next
  case (Cons node rest)
  show ?thesis
  proof (cases "design_module (worker_design st) (fst node)")
    case None
    with Cons assms have "st' = st\<lparr>next_to_explore_queue := rest\<rparr>"
      by (simp add: find_next_mux_step_def)
    with Cons show ?thesis by (rule popped)
  next
    case (Some m)
    show ?thesis
    proof (cases "node \<in> already_explored_set st")
      case True
      with Cons Some assms have "st' = st\<lparr>next_to_explore_queue := rest\<rparr>"
        by (simp add: find_next_mux_step_def Let_def split: sum.splits)
      with Cons show ?thesis by (rule popped)
    next
      case False
      with Cons Some assms have
        "st' = st\<lparr>next_to_explore_queue := rest,
                already_explored_set := insert node (already_explored_set st),
                expansions := expansions st @ [node]\<rparr>"
        by (auto simp: find_next_mux_step_def Let_def split: if_splits outcome.splits)
      with Cons False show ?thesis by (rule expanded)
    qed
  qed
qed

lemma step_Go_expanded_once:
  assumes "find_next_mux_step st = Go st'" "expanded_once st"
  shows "expanded_once st'"
  using assms(1)
proof (cases rule: step_Go_cases)
  case (skip node rest)
  with assms(2) show ?thesis by (simp add: expanded_once_def)
next
  case (expand node rest m q)
  with assms(2) show ?thesis by (auto simp: expanded_once_def)
qed

lemma step_Stop_expanded_once:
  assumes "find_next_mux_step st = Stop (res, st')" "expanded_once st"
  shows "expanded_once st'"
  using assms(1)
proof (cases rule: step_Stop_cases)
  case same
  with assms(2) show ?thesis by simp
next
  case (popped node rest)
  with assms(2) show ?thesis by (simp add: expanded_once_def)
next
  case (expanded node rest)
  with assms(2) show ?thesis by (auto simp: expanded_once_def)
qed

lemma find_next_mux_expanded_once:
  assumes "find_next_mux st = Some y"
  shows "expanded_once st \<longrightarrow> expanded_once (snd y)"
  using assms
proof (induction rule: find_next_mux_induct)
  case (Stop st r)
  then show ?case by (cases r) (auto dest: step_Stop_expanded_once)
next
  case (Go st st' r)
  then show ?case by (auto dest: step_Go_expanded_once)
qed

lemma step_explored_skip:
  assumes "next_to_explore_queue st = node # rest" "node \<in> already_explored_set st"
  shows "find_next_mux_step st = Go (st\<lparr>next_to_explore_queue := rest\<rparr>)
     \<or> (\<exists>e. find_next_mux_step st = Stop (Inl e, st\<lparr>next_to_explore_queue := rest\<rparr>))"
  using assms
  by (auto simp: find_next_mux_step_def Let_def split: option.splits sum.splits)

text \<open>
  C5. In a trace that starts with nothing explored, the pairs expanded are pairwise different,
  and they are exactly the pairs of the explored set at the end. A pair taken from the worklist
  that is in the explored set is dropped: the loop goes on (or stops on the assertion of the
  message of line 96, or on a null module) with the rest of the worklist, the same explored set
  and the same expansions.
\<close>

theorem no_pair_expanded_twice:
  "(find_next_mux (initial_worker d all_modules q) = Some (res, st') \<longrightarrow>
      distinct (expansions st') \<and> set (expansions st') = already_explored_set st')
   \<and> (next_to_explore_queue st = node # rest \<and> node \<in> already_explored_set st \<longrightarrow>
        find_next_mux_step st = Go (st\<lparr>next_to_explore_queue := rest\<rparr>)
        \<or> (\<exists>e. find_next_mux_step st = Stop (Inl e, st\<lparr>next_to_explore_queue := rest\<rparr>)))"
proof (intro conjI impI)
  assume run: "find_next_mux (initial_worker d all_modules q) = Some (res, st')"
  have "expanded_once (initial_worker d all_modules q)"
    by (simp add: expanded_once_def initial_worker_def)
  with find_next_mux_expanded_once [OF run] have "expanded_once st'" by simp
  then show "distinct (expansions st')" "set (expansions st') = already_explored_set st'"
    by (simp_all add: expanded_once_def)
next
  assume "next_to_explore_queue st = node # rest \<and> node \<in> already_explored_set st"
  then show "find_next_mux_step st = Go (st\<lparr>next_to_explore_queue := rest\<rparr>)
        \<or> (\<exists>e. find_next_mux_step st = Stop (Inl e, st\<lparr>next_to_explore_queue := rest\<rparr>))"
    using step_explored_skip by blast
qed


theorem no_pair_expanded_twice_witness:
  "(\<exists>res st'. find_next_mux (initial_worker example_design (selected_modules example_design)
         [(mod_name example_top, example_sig ''data_in'')]) = Some (res, st')
       \<and> expansions st' = [(mod_name example_top, example_sig ''data_in''),
                            (mod_name example_top, example_sig ''mid'')]
       \<and> distinct (expansions st') \<and> set (expansions st') = already_explored_set st')
   \<and> next_to_explore_queue example_revisit = [(mod_name example_top, example_sig ''data_in'')]
   \<and> (mod_name example_top, example_sig ''data_in'') \<in> already_explored_set example_revisit
   \<and> (find_next_mux_step example_revisit = Go (example_revisit\<lparr>next_to_explore_queue := []\<rparr>)
        \<or> (\<exists>e. find_next_mux_step example_revisit
               = Stop (Inl e, example_revisit\<lparr>next_to_explore_queue := []\<rparr>)))"
proof -
  have "map_option (\<lambda>r. expansions (snd r)) (find_next_mux example_start)
      = Some [(mod_name example_top, example_sig ''data_in''),
              (mod_name example_top, example_sig ''mid'')]" by code_simp
  then obtain res st' where run: "find_next_mux (initial_worker example_design
        (selected_modules example_design) [(mod_name example_top, example_sig ''data_in'')])
        = Some (res, st')"
    and ex: "expansions st' = [(mod_name example_top, example_sig ''data_in''),
                            (mod_name example_top, example_sig ''mid'')]"
    unfolding example_start_def by auto
  have h1: "next_to_explore_queue example_revisit = [(mod_name example_top, example_sig ''data_in'')]"
    by code_simp
  have h2: "(mod_name example_top, example_sig ''data_in'') \<in> already_explored_set example_revisit"
    by code_simp
  note inst = no_pair_expanded_twice [of example_design "selected_modules example_design"
      "[(mod_name example_top, example_sig ''data_in'')]" res st' example_revisit
      "(mod_name example_top, example_sig ''data_in'')" "[]"]
  from inst run have a: "distinct (expansions st') \<and> set (expansions st') = already_explored_set st'"
    by blast
  from inst h1 h2
  have b: "find_next_mux_step example_revisit = Go (example_revisit\<lparr>next_to_explore_queue := []\<rparr>)
        \<or> (\<exists>e. find_next_mux_step example_revisit
               = Stop (Inl e, example_revisit\<lparr>next_to_explore_queue := []\<rparr>))"
    by blast
  from run ex a h1 h2 b show ?thesis by blast
qed

subsection \<open>The graph is only read\<close>

lemma FindNextMuxWorker_design:
  assumes "FindNextMuxWorker d m all_modules n = Some (res, st')"
  shows "worker_design st' = d"
proof (cases "module_wire m (backslash # n)")
  case None
  with assms show ?thesis by (auto simp: FindNextMuxWorker_def initial_worker_def)
next
  case (Some w)
  with assms have "find_next_mux (initial_worker d all_modules [(mod_name m, sig_of_wire w)])
      = Some (res, st')" by (simp add: FindNextMuxWorker_def)
  from find_next_mux_design [OF this] show ?thesis by (simp add: initial_worker_def)
qed

lemma FindNextMussPass_execute_design:
  assumes "FindNextMussPass_execute d n mn = Some (res, d')"
  shows "d' = d"
proof -
  have "\<And>m. map_option (\<lambda>r. (fst r, worker_design (snd r)))
         (FindNextMuxWorker d m (selected_modules d) n) = Some (res, d') \<Longrightarrow> d' = d"
    by (auto dest: FindNextMuxWorker_design)
  with assms show ?thesis
    unfolding FindNextMussPass_execute_def
    by (auto split: if_splits option.splits outcome.splits)
qed

text \<open>
  C8. The design that the worker's pointers lead to is the same at the end of the loop as at
  its start, whatever the result; so is it after the worker's constructor and after the whole
  pass, which hands back the design it was given.
\<close>

theorem trace_leaves_design_unchanged:
  "(find_next_mux st = Some (res, st') \<longrightarrow> worker_design st' = worker_design st)
   \<and> (FindNextMuxWorker d m all_modules n = Some (res, st') \<longrightarrow> worker_design st' = d)
   \<and> (FindNextMussPass_execute d n mn = Some (res, d') \<longrightarrow> d' = d)"
  using find_next_mux_design [of st "(res, st')"] FindNextMuxWorker_design [of d m all_modules n res st']
    FindNextMussPass_execute_design [of d n mn res d']
  by simp

theorem trace_leaves_design_unchanged_witness:
  "\<exists>st' d'. find_next_mux example_start
        = Some (Inr (backslash # ''mode_sel'', backslash # ''top''), st')
     \<and> worker_design st' = worker_design example_start
     \<and> FindNextMuxWorker example_design example_top (selected_modules example_design) ''data_in''
        = Some (Inr (backslash # ''mode_sel'', backslash # ''top''), st')
     \<and> worker_design st' = example_design
     \<and> FindNextMussPass_execute example_design ''data_in'' []
        = Some (Inr (backslash # ''mode_sel'', backslash # ''top''), d')
     \<and> d' = example_design"
proof -
  let ?r = "Inr (backslash # ''mode_sel'', backslash # ''top'') :: search_result"
  have "map_option fst (find_next_mux example_start) = Some ?r" by code_simp
  then obtain st' where run: "find_next_mux example_start = Some (?r, st')" by auto
  have w: "module_wire example_top (backslash # ''data_in'') = Some (example_wire ''data_in'' 1)"
    by code_simp
  have run2: "FindNextMuxWorker example_design example_top (selected_modules example_design)
      ''data_in'' = Some (?r, st')"
    using run w by (simp add: FindNextMuxWorker_def example_start_def example_sig_def)
  have "map_option fst (FindNextMussPass_execute example_design ''data_in'' []) = Some ?r"
    by code_simp
  then obtain d' where run3: "FindNextMussPass_execute example_design ''data_in'' [] = Some (?r, d')"
    by auto
  note inst = trace_leaves_design_unchanged [of example_start ?r st' example_design example_top
      "selected_modules example_design" "''data_in''" "[]" d']
  from inst run run2 run3 show ?thesis by blast
qed

section \<open>Termination\<close>

subsection \<open>What an expansion puts on the worklist\<close>

lemma finite_design_nodes: "finite (design_nodes d)"
  by (simp add: design_nodes_def module_sigs_def)

lemma selected_cells_subset: "c \<in> set (selected_cells m) \<Longrightarrow> c \<in> set (mod_cells m)"
  by (simp add: selected_cells_def)

lemma getPort_in_sigs:
  assumes "getPort c p = Inr s" "c \<in> set (mod_cells m)"
  shows "s \<in> module_sigs m"
proof -
  from assms(1) have "(p, s) \<in> set (cell_connections c)"
    by (auto simp: getPort_def split: option.splits dest: map_of_SomeD)
  then have "s \<in> snd ` set (cell_connections c)" by force
  with assms(2) show ?thesis by (auto simp: module_sigs_def)
qed

lemma port_in_sigs:
  assumes "port \<in> set (cell_connections c)" "c \<in> set (mod_cells m)"
  shows "snd port \<in> module_sigs m"
  using assms by (auto simp: module_sigs_def)

lemma node_in_design:
  assumes "m \<in> set (design_modules d)" "s \<in> module_sigs m"
  shows "(mod_name m, s) \<in> design_nodes d"
  using assms by (auto simp: design_nodes_def)

lemma push_output_bound:
  assumes "push_output m c q = Continue q'" "c \<in> set (mod_cells m)" "m \<in> set (design_modules d)"
    "set q \<subseteq> B" "design_nodes d \<subseteq> B"
  shows "set q' \<subseteq> B"
proof -
  from assms(1) obtain y where y: "getPort c ID_Y = Inr y" and q': "q' = q @ [(mod_name m, y)]"
    by (auto simp: push_output_def split: sum.splits)
  from getPort_in_sigs [OF y assms(2)] assms(3) have "(mod_name m, y) \<in> design_nodes d"
    by (simp add: node_in_design)
  with q' assms(4,5) show ?thesis by auto
qed

lemma mux_candidate_bound:
  assumes "mux_candidate m c p q = Continue q'" "c \<in> set (mod_cells m)" "m \<in> set (design_modules d)"
    "set q \<subseteq> B" "design_nodes d \<subseteq> B"
  shows "set q' \<subseteq> B"
proof -
  from assms(1) have "push_output m c q = Continue q'"
    by (auto simp: mux_candidate_def split: if_splits sum.splits option.splits)
  then show ?thesis using assms(2-5) by (rule push_output_bound)
qed

lemma mux_port_bound:
  assumes "mux_port d m cw c port q = Continue q'" "c \<in> set (mod_cells m)" "m \<in> set (design_modules d)"
    "set q \<subseteq> B" "design_nodes d \<subseteq> B"
  shows "set q' \<subseteq> B"
proof (cases "mux_port d m cw c port q = mux_candidate m c (fst port) q")
  case True
  with assms(1) have "mux_candidate m c (fst port) q = Continue q'" by simp
  then show ?thesis using assms(2-5) by (rule mux_candidate_bound)
next
  case False
  then have "mux_port d m cw c port q = Continue q" by (auto simp: mux_port_def split: if_splits)
  with assms(1,4) show ?thesis by simp
qed

lemma selector_check_bound:
  assumes "selector_check d m cw q = Continue q'" "m \<in> set (design_modules d)"
    "set q \<subseteq> B" "design_nodes d \<subseteq> B"
  shows "set q' \<subseteq> B"
  using assms(1) unfolding selector_check_def
proof (rule for_each_invariant [where P = "\<lambda>q. set q \<subseteq> B"])
  show "set q \<subseteq> B" by fact
next
  fix c q1 q2
  assume c: "c \<in> set (selected_cells m)" and q1: "set q1 \<subseteq> B"
    and "mux_cell d m cw c q1 = Continue q2"
  then have run: "for_each (cell_connections c) (mux_port d m cw c) q1 = Continue q2"
    by (simp add: mux_cell_def)
  show "set q2 \<subseteq> B"
    using run q1
  proof (rule for_each_invariant [where P = "\<lambda>q. set q \<subseteq> B"])
    fix port qa qb
    assume "set qa \<subseteq> B" "mux_port d m cw c port qa = Continue qb"
    then show "set qb \<subseteq> B"
      using mux_port_bound [of d m cw c port qa qb B] c assms(2,4)
      by (simp add: selected_cells_subset)
  qed
qed


lemma fanin_output_port_bound:
  assumes "fanin_output_port d m c op q = Continue q'" "op \<in> set (cell_connections c)"
    "c \<in> set (mod_cells m)" "m \<in> set (design_modules d)" "set q \<subseteq> B" "design_nodes d \<subseteq> B"
  shows "set q' \<subseteq> B"
proof -
  from assms(2,3,4) have "(mod_name m, snd op) \<in> design_nodes d"
    by (simp add: node_in_design port_in_sigs)
  with assms(1,5,6) show ?thesis
    by (auto simp: fanin_output_port_def split: if_splits sum.splits)
qed

lemma fanin_port_bound:
  assumes "fanin_port d m cw c port q = Continue q'"
    "c \<in> set (mod_cells m)" "m \<in> set (design_modules d)" "set q \<subseteq> B" "design_nodes d \<subseteq> B"
  shows "set q' \<subseteq> B"
proof (cases "wire_named (snd port) (ref_name cw) \<and> cell_input d c (fst port)")
  case False
  with assms(1,4) show ?thesis by (auto simp: fanin_port_def split: if_splits)
next
  case True
  with assms(1) have "for_each (cell_connections c) (fanin_output_port d m c) q = Continue q'"
    by (simp add: fanin_port_def)
  then show ?thesis using assms(4)
  proof (rule for_each_invariant [where P = "\<lambda>q. set q \<subseteq> B"])
    fix op qa qb
    assume "op \<in> set (cell_connections c)" "set qa \<subseteq> B" "fanin_output_port d m c op qa = Continue qb"
    then show "set qb \<subseteq> B"
      using fanin_output_port_bound [of d m c op qa qb B] assms(2,3,5) by simp
  qed
qed

lemma cell_fanin_bound:
  assumes "cell_fanin d m cw q = Continue q'" "m \<in> set (design_modules d)"
    "set q \<subseteq> B" "design_nodes d \<subseteq> B"
  shows "set q' \<subseteq> B"
  using assms(1) unfolding cell_fanin_def
proof (rule for_each_invariant [where P = "\<lambda>q. set q \<subseteq> B"])
  show "set q \<subseteq> B" by fact
next
  fix c q1 q2
  assume c: "c \<in> set (selected_cells m)" and q1: "set q1 \<subseteq> B"
    and step: "fanin_cell d m cw c q1 = Continue q2"
  show "set q2 \<subseteq> B"
  proof (cases "design_module d (cell_type c)")
    case (Some sub)
    with step q1 show ?thesis by (simp add: fanin_cell_def)
  next
    case None
    with step have "for_each (cell_connections c) (fanin_port d m cw c) q1 = Continue q2"
      by (simp add: fanin_cell_def)
    then show ?thesis using q1
    proof (rule for_each_invariant [where P = "\<lambda>q. set q \<subseteq> B"])
      fix port qa qb
      assume "set qa \<subseteq> B" "fanin_port d m cw c port qa = Continue qb"
      then show "set qb \<subseteq> B"
        using fanin_port_bound [of d m cw c port qa qb B] c assms(2,4)
        by (simp add: selected_cells_subset)
    qed
  qed
qed

lemma direct_connections_bound:
  assumes "direct_connections m cw q = Continue q'" "m \<in> set (design_modules d)"
    "set q \<subseteq> B" "design_nodes d \<subseteq> B"
  shows "set q' \<subseteq> B"
  using assms(1) unfolding direct_connections_def
proof (rule for_each_invariant [where P = "\<lambda>q. set q \<subseteq> B"])
  show "set q \<subseteq> B" by fact
next
  fix conn q1 q2
  assume conn: "conn \<in> set (mod_connections m)" and q1: "set q1 \<subseteq> B"
    and step: "direct_connection m cw conn q1 = Continue q2"
  from conn have "fst conn \<in> module_sigs m" by (auto simp: module_sigs_def)
  with assms(2) have "(mod_name m, fst conn) \<in> design_nodes d" by (simp add: node_in_design)
  with step q1 assms(4) show "set q2 \<subseteq> B"
    by (auto simp: direct_connection_def split: if_splits sum.splits)
qed

lemma module_wire_in_sigs:
  assumes "module_wire m p = Some w"
  shows "sig_of_wire w \<in> module_sigs m"
proof -
  from assms have "w \<in> set (mod_wires m)" by (auto simp: module_wire_def find_Some_iff)
  then show ?thesis by (simp add: module_sigs_def)
qed

lemma submodule_port_bound:
  assumes "submodule_port d cw c sub port q = Continue q'" "sub \<in> set (design_modules d)"
    "set q \<subseteq> B" "design_nodes d \<subseteq> B"
  shows "set q' \<subseteq> B"
proof (cases "module_wire sub (fst port)")
  case None
  with assms(1,3) show ?thesis by (auto simp: submodule_port_def split: if_splits)
next
  case (Some w)
  from module_wire_in_sigs [OF this] assms(2) have "(mod_name sub, sig_of_wire w) \<in> design_nodes d"
    by (simp add: node_in_design)
  with Some assms(1,3,4) show ?thesis
    by (auto simp: submodule_port_def split: if_splits sum.splits)
qed

lemma submodule_fanout_bound:
  assumes "submodule_fanout d m cw q = Continue q'" "set q \<subseteq> B" "design_nodes d \<subseteq> B"
  shows "set q' \<subseteq> B"
  using assms(1) unfolding submodule_fanout_def
proof (rule for_each_invariant [where P = "\<lambda>q. set q \<subseteq> B"])
  show "set q \<subseteq> B" by fact
next
  fix c q1 q2
  assume q1: "set q1 \<subseteq> B" and step: "submodule_cell d cw c q1 = Continue q2"
  show "set q2 \<subseteq> B"
  proof (cases "design_module d (cell_type c)")
    case None
    with step q1 show ?thesis by (simp add: submodule_cell_def)
  next
    case (Some sub)
    then have sub: "sub \<in> set (design_modules d)" by (simp add: design_module_Some)
    from Some step have "for_each (cell_connections c) (submodule_port d cw c sub) q1 = Continue q2"
      by (simp add: submodule_cell_def)
    then show ?thesis using q1
    proof (rule for_each_invariant [where P = "\<lambda>q. set q \<subseteq> B"])
      fix port qa qb
      assume "set qa \<subseteq> B" "submodule_port d cw c sub port qa = Continue qb"
      then show "set qb \<subseteq> B"
        using submodule_port_bound [of d cw c sub port qa qb B] sub assms(3) by simp
    qed
  qed
qed

lemma parent_port_bound:
  assumes "parent_port pmod cw c port q = Continue q'" "c \<in> set (mod_cells pmod)"
    "pmod \<in> set (design_modules d)" "set q \<subseteq> B" "design_nodes d \<subseteq> B"
  shows "set q' \<subseteq> B"
proof (cases "getPort c (fst port)")
  case (Inl e)
  with assms(1,4) show ?thesis by (auto simp: parent_port_def split: if_splits)
next
  case (Inr s)
  from getPort_in_sigs [OF this assms(2)] assms(3) have "(mod_name pmod, s) \<in> design_nodes d"
    by (simp add: node_in_design)
  with Inr assms(1,4,5) show ?thesis
    by (auto simp: parent_port_def split: if_splits sum.splits)
qed

lemma parent_cell_bound:
  assumes "parent_cell d m pmod cw c q = Continue q'" "c \<in> set (mod_cells pmod)"
    "pmod \<in> set (design_modules d)" "set q \<subseteq> B" "design_nodes d \<subseteq> B"
  shows "set q' \<subseteq> B"
proof (cases "parent_cell d m pmod cw c q = for_each (cell_connections c) (parent_port pmod cw c) q")
  case False
  then have "parent_cell d m pmod cw c q = Continue q"
    by (auto simp: parent_cell_def split: option.splits if_splits)
  with assms(1,4) show ?thesis by simp
next
  case True
  with assms(1) have "for_each (cell_connections c) (parent_port pmod cw c) q = Continue q'" by simp
  then show ?thesis using assms(4)
  proof (rule for_each_invariant [where P = "\<lambda>q. set q \<subseteq> B"])
    fix port qa qb
    assume "set qa \<subseteq> B" "parent_port pmod cw c port qa = Continue qb"
    then show "set qb \<subseteq> B"
      using parent_port_bound [of pmod cw c port qa qb d B] assms(2,3,5) by simp
  qed
qed

lemma hierarchy_ascent_bound:
  assumes "hierarchy_ascent d pm m cw q = Continue q'" "set q \<subseteq> B" "design_nodes d \<subseteq> B"
  shows "set q' \<subseteq> B"
  using assms(1) unfolding hierarchy_ascent_def
proof (rule for_each_invariant [where P = "\<lambda>q. set q \<subseteq> B"])
  show "set q \<subseteq> B" by fact
next
  fix w q1 q2
  assume q1: "set q1 \<subseteq> B" and step: "ascend_wire d pm m cw w q1 = Continue q2"
  from step consider "q2 = q1"
    | pname pmod where "design_module d pname = Some pmod"
        "for_each (selected_cells pmod) (parent_cell d m pmod cw) q1 = Continue q2"
    by (auto simp: ascend_wire_def split: if_splits option.splits)
  then show "set q2 \<subseteq> B"
  proof cases
    case 1
    with q1 show ?thesis by simp
  next
    case 2
    from 2(1) have pin: "pmod \<in> set (design_modules d)" by (simp add: design_module_Some)
    show ?thesis using 2(2) q1
    proof (rule for_each_invariant [where P = "\<lambda>q. set q \<subseteq> B"])
      fix c qa qb
      assume "c \<in> set (selected_cells pmod)" "set qa \<subseteq> B" "parent_cell d m pmod cw c qa = Continue qb"
      then show "set qb \<subseteq> B"
        using parent_cell_bound [of d m pmod cw c qa qb B] pin assms(3)
        by (simp add: selected_cells_subset)
    qed
  qed
qed

lemma and_then_Continue:
  "and_then r f = Continue q' \<Longrightarrow> \<exists>q1. r = Continue q1 \<and> f q1 = Continue q'"
  by (cases r) (simp_all add: and_then_def)

lemma explore_chunk_bound:
  assumes "explore_chunk d pm m ch q = Continue q'" "m \<in> set (design_modules d)"
    "set q \<subseteq> B" "design_nodes d \<subseteq> B"
  shows "set q' \<subseteq> B"
proof (cases "chunk_wire ch")
  case None
  with assms(1,3) show ?thesis by (simp add: explore_chunk_def)
next
  case (Some cw)
  with assms(1) obtain q1 q2 q3 q4 where
    r1: "selector_check d m cw q = Continue q1" and r2: "cell_fanin d m cw q1 = Continue q2"
    and r3: "direct_connections m cw q2 = Continue q3"
    and r4: "submodule_fanout d m cw q3 = Continue q4"
    and r5: "hierarchy_ascent d pm m cw q4 = Continue q'"
    unfolding explore_chunk_def by (auto dest!: and_then_Continue)
  from r1 assms(2,3,4) have "set q1 \<subseteq> B" by (rule selector_check_bound)
  with r2 assms(2) have "set q2 \<subseteq> B" using assms(4) by (rule cell_fanin_bound)
  with r3 assms(2) have "set q3 \<subseteq> B" using assms(4) by (rule direct_connections_bound)
  with r4 have "set q4 \<subseteq> B" using assms(4) by (rule submodule_fanout_bound)
  with r5 show ?thesis using assms(4) by (rule hierarchy_ascent_bound)
qed

lemma expansion_bound:
  assumes "for_each s (explore_chunk d pm m) q = Continue q'" "m \<in> set (design_modules d)"
  shows "set q' \<subseteq> design_nodes d \<union> set q"
  using assms(1)
proof (rule for_each_invariant [where P = "\<lambda>q'. set q' \<subseteq> design_nodes d \<union> set q"])
  show "set q \<subseteq> design_nodes d \<union> set q" by blast
next
  fix ch qa qb
  assume "set qa \<subseteq> design_nodes d \<union> set q" "explore_chunk d pm m ch qa = Continue qb"
  then show "set qb \<subseteq> design_nodes d \<union> set q"
    using explore_chunk_bound [of d pm m ch qa qb "design_nodes d \<union> set q"] assms(2) by simp
qed

subsection \<open>The worklist loop ends\<close>

lemma finite_unexplored: "finite (unexplored st)"
  by (simp add: unexplored_def finite_design_nodes)

lemma step_Go_decreases:
  assumes "find_next_mux_step st = Go st'"
  shows "(worker_measure st', worker_measure st) \<in> less_than <*lex*> less_than"
  using assms
proof (cases rule: step_Go_cases)
  case (skip node rest)
  then have "unexplored st' \<subseteq> unexplored st" by (auto simp: unexplored_def)
  then have "card (unexplored st') \<le> card (unexplored st)"
    by (simp add: card_mono finite_unexplored)
  moreover from skip have "length (next_to_explore_queue st') < length (next_to_explore_queue st)"
    by simp
  ultimately show ?thesis by (auto simp: worker_measure_def)
next
  case (expand node rest m q)
  from expand(3) have m: "m \<in> set (design_modules (worker_design st))"
    by (simp add: design_module_Some)
  from expansion_bound [OF expand(4) m]
  have q: "set q \<subseteq> design_nodes (worker_design st) \<union> set rest" .
  have "node \<in> unexplored st" using expand(1,2) by (simp add: unexplored_def)
  moreover have "node \<notin> unexplored st'" using expand(5) by (simp add: unexplored_def)
  moreover have "unexplored st' \<subseteq> unexplored st"
    using q expand(1,5) by (auto simp: unexplored_def)
  ultimately have "unexplored st' \<subset> unexplored st" by blast
  then have "card (unexplored st') < card (unexplored st)"
    by (simp add: psubset_card_mono finite_unexplored)
  then show ?thesis by (simp add: worker_measure_def)
qed

lemma find_next_mux_terminates: "\<exists>r. find_next_mux st = Some r"
proof -
  have "wf (inv_image (less_than <*lex*> less_than) worker_measure)"
    by (intro wf_inv_image wf_lex_prod wf_less_than)
  then show ?thesis
  proof (induction st rule: wf_induct_rule)
    case (less st)
    show ?case
    proof (cases "find_next_mux_step st")
      case (Stop r)
      then show ?thesis by (subst find_next_mux.simps) simp
    next
      case (Go st')
      then have "(st', st) \<in> inv_image (less_than <*lex*> less_than) worker_measure"
        by (simp add: step_Go_decreases)
      then obtain r where "find_next_mux st' = Some r" using less by blast
      with Go show ?thesis by (subst find_next_mux.simps) simp
    qed
  qed
qed

lemma FindNextMuxWorker_terminates: "FindNextMuxWorker d m all_modules n \<noteq> None"
proof (cases "module_wire m (backslash # n)")
  case None
  then show ?thesis by (simp add: FindNextMuxWorker_def)
next
  case (Some w)
  obtain r where "find_next_mux (initial_worker d all_modules [(mod_name m, sig_of_wire w)]) = Some r"
    using find_next_mux_terminates by blast
  with Some show ?thesis by (simp add: FindNextMuxWorker_def)
qed

subsection \<open>The collection of the modules ends\<close>

lemma topo_node_dom: "fst ` set (topo_node n db) = insert n (fst ` set db)"
  by (auto simp: topo_node_def map_of_eq_None_iff)

lemma topo_edge_dom: "fst ` set (topo_edge l r db) = insert l (insert r (fst ` set db))"
proof -
  have "map fst (topo_edge l r db) = map fst (topo_node r (topo_node l db))"
    by (auto simp: topo_edge_def)
  then have "set (map fst (topo_edge l r db)) = set (map fst (topo_node r (topo_node l db)))"
    by simp
  then have "fst ` set (topo_edge l r db) = fst ` set (topo_node r (topo_node l db))"
    by simp
  then show ?thesis by (auto simp: topo_node_dom)
qed

lemma collect_cell_measure:
  "collect_measure d (collect_cell d m c st) \<le> collect_measure d st"
proof (cases "design_module d (cell_type c)")
  case None
  then show ?thesis by (simp add: collect_cell_def)
next
  case (Some tpl)
  let ?N = "set (map mod_name (design_modules d))"
  let ?D = "fst ` set (snd st)"
  let ?D' = "insert (mod_name tpl) (insert (mod_name m) ?D)"
  from Some have tpl: "mod_name tpl \<in> ?N" by (auto dest: design_module_Some)
  have sub: "?N - ?D' \<subseteq> ?N - ?D" by blast
  show ?thesis
  proof (cases "map_of (snd st) (mod_name tpl)")
    case None
    then have True: "map_of (snd st) (mod_name tpl) = None" .
    then have "mod_name tpl \<notin> ?D" by (simp add: map_of_eq_None_iff)
    with tpl have "?N - ?D' \<subset> ?N - ?D" by blast
    then have "card (?N - ?D') < card (?N - ?D)" by (simp add: psubset_card_mono)
    with \<open>design_module d (cell_type c) = Some tpl\<close> True show ?thesis
      by (simp add: collect_cell_def collect_measure_def topo_edge_dom)
  next
    case (Some deps)
    then have False: "map_of (snd st) (mod_name tpl) = Some deps" .
    from sub have "card (?N - ?D') \<le> card (?N - ?D)" by (simp add: card_mono)
    with \<open>design_module d (cell_type c) = Some tpl\<close> False show ?thesis
      by (simp add: collect_cell_def collect_measure_def topo_edge_dom)
  qed
qed

lemma collect_cells_measure:
  "collect_measure d (fold (collect_cell d m) cs st) \<le> collect_measure d st"
proof (induction cs arbitrary: st)
  case Nil
  then show ?case by simp
next
  case (Cons c cs)
  have "collect_measure d (fold (collect_cell d m) cs (collect_cell d m c st))
      \<le> collect_measure d (collect_cell d m c st)" by (rule Cons.IH)
  also have "\<dots> \<le> collect_measure d st" by (rule collect_cell_measure)
  finally show ?case by simp
qed

lemma collect_step_measure:
  "collect_measure d (collect_step d m rest topo) < collect_measure d (m # rest, topo)"
proof -
  let ?N = "set (map mod_name (design_modules d))"
  have "collect_measure d (collect_step d m rest topo)
      \<le> collect_measure d (rest, topo_node (mod_name m) topo)"
    unfolding collect_step_def by (rule collect_cells_measure)
  also have "\<dots> < collect_measure d (m # rest, topo)"
  proof -
    have "?N - insert (mod_name m) (fst ` set topo) \<subseteq> ?N - fst ` set topo" by blast
    then have "card (?N - insert (mod_name m) (fst ` set topo)) \<le> card (?N - fst ` set topo)"
      by (simp add: card_mono)
    then show ?thesis by (simp add: collect_measure_def topo_node_dom)
  qed
  finally show ?thesis .
qed

lemma collect_modules_terminates: "\<exists>topo. collect_modules d st = Some topo"
proof (induction st rule: measure_induct_rule [of "collect_measure d"])
  case (less st)
  obtain wl topo where st: "st = (wl, topo)" by (cases st)
  show ?case
  proof (cases wl)
    case Nil
    with st show ?thesis by (subst collect_modules.simps) simp
  next
    case (Cons m rest)
    with st have "collect_measure d (collect_step d m rest topo) < collect_measure d st"
      by (simp add: collect_step_measure)
    then obtain r where "collect_modules d (collect_step d m rest topo) = Some r"
      using less by blast
    with st Cons show ?thesis by (subst collect_modules.simps) simp
  qed
qed

lemma FindNextMussPass_execute_terminates: "FindNextMussPass_execute d n mn \<noteq> None"
proof -
  obtain topo where "collect_modules d (selected_modules d, []) = Some topo"
    using collect_modules_terminates by blast
  then show ?thesis
    unfolding FindNextMussPass_execute_def
    by (simp del: not_None_eq add: FindNextMuxWorker_terminates split: outcome.splits option.splits)
qed

lemma ControlRegistersProbesPass_execute_terminates:
  "ControlRegistersProbesPass_execute d \<noteq> None"
proof -
  obtain topo where "collect_modules d (selected_modules d, []) = Some topo"
    using collect_modules_terminates by blast
  then show ?thesis by (simp del: not_None_eq add: ControlRegistersProbesPass_execute_def)
qed

text \<open>
  C6. Whatever the worker's state, the worklist loop of the tracer leaves with a result or an
  error; so do the worker's constructor and the tracer's pass, and so does the pass of the
  probe puller: the loop that collects the modules ends, the sort and the loops over cells,
  chunks and wires are over finite lists.
\<close>

theorem tracer_and_puller_terminate:
  "(\<exists>r. find_next_mux st = Some r)
   \<and> (\<exists>r. FindNextMuxWorker d m all_modules n = Some r)
   \<and> (\<exists>r. FindNextMussPass_execute d n mn = Some r)
   \<and> (\<exists>r. ControlRegistersProbesPass_execute d = Some r)"
  using find_next_mux_terminates [of st] FindNextMuxWorker_terminates [of d m all_modules n]
    FindNextMussPass_execute_terminates [of d n mn]
    ControlRegistersProbesPass_execute_terminates [of d]
  by (simp only: not_None_eq)

theorem tracer_and_puller_terminate_witness:
  "FindNextMuxWorker example_feedback (example_module ''loop'' [''a'', ''b''] [])
       (selected_modules example_feedback) ''a'' \<noteq> None
   \<and> map_option fst (FindNextMussPass_execute example_feedback ''a'' []) = Some (Inr NONE)
   \<and> map_option fst (ControlRegistersProbesPass_execute example_chain) = Some None"
proof -
  have a: "map_option fst (FindNextMussPass_execute example_feedback ''a'' []) = Some (Inr NONE)"
    by code_simp
  have b: "map_option fst (ControlRegistersProbesPass_execute example_chain) = Some None"
    by code_simp
  from tracer_and_puller_terminate [of _ example_feedback "example_module ''loop'' [''a'', ''b''] []"
      "selected_modules example_feedback" "''a''"]
  have "FindNextMuxWorker example_feedback (example_module ''loop'' [''a'', ''b''] [])
       (selected_modules example_feedback) ''a'' \<noteq> None" by auto
  with a b show ?thesis by simp
qed

section \<open>Properties of the orderer\<close>

subsection \<open>The sort\<close>

lemma topo_ordered_snoc:
  assumes "topo_ordered db xs" "topo_ready db xs n"
  shows "topo_ordered db (xs @ [n])"
  unfolding topo_ordered_def
proof (intro allI impI ballI)
  fix i dep
  assume i: "i < length (xs @ [n])" and dep: "dep \<in> set (topo_deps db ((xs @ [n]) ! i))"
  show "dep \<in> set (take i (xs @ [n]))"
  proof (cases "i < length xs")
    case True
    with dep assms(1) show ?thesis by (auto simp: topo_ordered_def nth_append)
  next
    case False
    with i have "i = length xs" by simp
    with dep assms(2) show ?thesis by (auto simp: topo_ready_def list_all_iff)
  qed
qed

lemma topo_sort_loop_sound:
  assumes "topo_sort_loop db pending emitted = (ok, out)" "topo_ordered db emitted"
  shows "topo_ordered db out \<and> (ok \<longrightarrow> set out = set pending \<union> set emitted)
     \<and> (distinct emitted \<and> set emitted \<inter> set pending = {} \<longrightarrow> distinct out)"
  using assms
proof (induction db pending emitted rule: topo_sort_loop.induct)
  case (1 db pending emitted)
  show ?case
  proof (cases "find (topo_ready db emitted) pending")
    case None
    with "1.prems" show ?thesis by (subst (asm) topo_sort_loop.simps) auto
  next
    case (Some n)
    then have n: "n \<in> set pending" "topo_ready db emitted n" by (auto simp: find_Some_iff)
    from Some "1.prems"(1) have run: "topo_sort_loop db (removeAll n pending) (emitted @ [n]) = (ok, out)"
      by (subst (asm) topo_sort_loop.simps) simp
    have ord: "topo_ordered db (emitted @ [n])" using "1.prems"(2) n(2) by (rule topo_ordered_snoc)
    from "1.IH" [OF Some run ord] n(1) show ?thesis by auto
  qed
qed

lemma topo_sort_sound:
  assumes "topo_sort db = (ok, out)"
  shows "topo_ordered db out" and "ok \<Longrightarrow> set out = fst ` set db"
    and "distinct (map fst db) \<Longrightarrow> distinct out"
proof -
  have ord: "topo_ordered db []" by (simp add: topo_ordered_def)
  from assms have run: "topo_sort_loop db (map fst db) [] = (ok, out)" by (simp add: topo_sort_def)
  note * = topo_sort_loop_sound [OF run ord]
  from * show "topo_ordered db out" by simp
  from * show "ok \<Longrightarrow> set out = fst ` set db" by simp
  from * show "distinct (map fst db) \<Longrightarrow> distinct out" by simp
qed


lemma topo_edges_subset:
  "topo_edges db \<subseteq> (\<Union>e \<in> set db. set (snd e)) \<times> fst ` set db"
proof
  fix x assume "x \<in> topo_edges db"
  then obtain dep n where x: "x = (dep, n)" and dep: "dep \<in> set (topo_deps db n)"
    by (auto simp: topo_edges_def)
  then obtain ds where "map_of db n = Some ds" "dep \<in> set ds"
    by (cases "map_of db n") (auto simp: topo_deps_def)
  then have "(n, ds) \<in> set db" "dep \<in> set ds" by (auto dest: map_of_SomeD)
  with x show "x \<in> (\<Union>e \<in> set db. set (snd e)) \<times> fst ` set db" by force
qed

lemma finite_topo_edges: "finite (topo_edges db)"
  by (rule finite_subset [OF topo_edges_subset]) simp

lemma topo_edges_snd: "(dep, n) \<in> topo_edges db \<Longrightarrow> n \<in> fst ` set db"
  using topo_edges_subset [of db] by auto

lemma first_index_less:
  "x \<in> set (take i xs) \<Longrightarrow> length (takeWhile (\<lambda>y. y \<noteq> x) xs) < i"
proof (induction xs arbitrary: i)
  case Nil
  then show ?case by simp
next
  case (Cons a xs)
  then show ?case by (cases i) auto
qed

lemma first_index_nth:
  "x \<in> set xs \<Longrightarrow> length (takeWhile (\<lambda>y. y \<noteq> x) xs) < length xs
     \<and> xs ! length (takeWhile (\<lambda>y. y \<noteq> x) xs) = x"
  by (induction xs) auto

lemma topo_ordered_acyclic:
  assumes "topo_ordered db out" "fst ` set db \<subseteq> set out"
  shows "acyclic (topo_edges db)"
proof -
  let ?idx = "\<lambda>x. length (takeWhile (\<lambda>y. y \<noteq> x) out)"
  have "topo_edges db \<subseteq> inv_image less_than ?idx"
  proof
    fix e assume e: "e \<in> topo_edges db"
    then obtain dep n where dn: "e = (dep, n)" "dep \<in> set (topo_deps db n)"
      by (auto simp: topo_edges_def)
    with e assms(2) have "n \<in> set out" by (auto dest: topo_edges_snd)
    then have "?idx n < length out" "out ! ?idx n = n" by (simp_all add: first_index_nth)
    with assms(1) dn(2) have "dep \<in> set (take (?idx n) out)"
      unfolding topo_ordered_def by metis
    then have "?idx dep < ?idx n" by (rule first_index_less)
    with dn(1) show "e \<in> inv_image less_than ?idx" by simp
  qed
  moreover have "wf (inv_image less_than ?idx)" by simp
  ultimately have "wf (topo_edges db)" by (rule wf_subset [rotated])
  then show ?thesis by (rule wf_acyclic)
qed

lemma topo_sort_loop_complete:
  assumes "acyclic (topo_edges db)" "fst ` topo_edges db \<subseteq> set pending \<union> set emitted"
  shows "fst (topo_sort_loop db pending emitted)"
  using assms
proof (induction db pending emitted rule: topo_sort_loop.induct)
  case (1 db pending emitted)
  show ?case
  proof (cases "find (topo_ready db emitted) pending")
    case (Some n)
    then have "n \<in> set pending" by (auto simp: find_Some_iff)
    then have "set pending \<union> set emitted = set (removeAll n pending) \<union> set (emitted @ [n])"
      by auto
    with "1.prems"(2)
    have "fst ` topo_edges db \<subseteq> set (removeAll n pending) \<union> set (emitted @ [n])" by simp
    from "1.IH" [OF Some "1.prems"(1) this] Some show ?thesis
      by (subst topo_sort_loop.simps) simp
  next
    case None
    have "pending = []"
    proof (rule ccontr)
      assume "pending \<noteq> []"
      then obtain x where "x \<in> set pending" by (cases pending) auto
      moreover have "wf (topo_edges db)"
        using finite_topo_edges "1.prems"(1) by (rule finite_acyclic_wf)
      ultimately obtain z where z: "z \<in> set pending"
        and min: "\<And>y. (y, z) \<in> topo_edges db \<Longrightarrow> y \<notin> set pending"
        using wfE_min [of "topo_edges db" x "set pending"] by blast
      have "topo_ready db emitted z"
        unfolding topo_ready_def list_all_iff
      proof
        fix dep assume "dep \<in> set (topo_deps db z)"
        then have e: "(dep, z) \<in> topo_edges db" by (simp add: topo_edges_def)
        then have "dep \<in> fst ` topo_edges db" by force
        with "1.prems"(2) min [OF e] show "dep \<in> set emitted" by auto
      qed
      with z None show False by (auto simp: find_None_iff)
    qed
    with None show ?thesis by (subst topo_sort_loop.simps) simp
  qed
qed

lemma topo_sort_complete:
  assumes "acyclic (topo_edges db)" "fst ` topo_edges db \<subseteq> fst ` set db"
  shows "fst (topo_sort db)"
  unfolding topo_sort_def using assms by (intro topo_sort_loop_complete) auto

lemma topo_sort_cyclic:
  assumes "\<not> acyclic (topo_edges db)"
  shows "\<not> fst (topo_sort db)"
proof
  assume ok: "fst (topo_sort db)"
  obtain out where out: "topo_sort db = (True, out)" using ok by (cases "topo_sort db") auto
  from topo_sort_sound(1,2) [OF out] have "topo_ordered db out" "fst ` set db \<subseteq> set out" by auto
  then have "acyclic (topo_edges db)" by (rule topo_ordered_acyclic)
  with assms show False by simp
qed

subsection \<open>The database\<close>

lemma topo_deps_node: "topo_deps (topo_node n db) x = topo_deps db x"
  by (auto simp: topo_node_def topo_deps_def split: option.splits if_splits)

lemma topo_edges_node: "topo_edges (topo_node n db) = topo_edges db"
  by (simp add: topo_edges_def topo_deps_node)

lemma map_of_map_entry:
  "map_of (map (\<lambda>e. if fst e = r then (fst e, f (snd e)) else e) db) x
     = (if x = r then map_option f (map_of db x) else map_of db x)"
  by (induction db) auto

lemma topo_deps_edge:
  "set (topo_deps (topo_edge l r db) x)
     = (if x = r then insert l (set (topo_deps db r)) else set (topo_deps db x))"
proof -
  let ?db = "topo_node r (topo_node l db)"
  have "r \<in> fst ` set ?db" by (simp add: topo_node_dom)
  then obtain ds where ds: "map_of ?db r = Some ds"
    by (cases "map_of ?db r") (auto simp: map_of_eq_None_iff)
  then have "topo_deps ?db r = ds" by (simp add: topo_deps_def)
  then have r: "topo_deps db r = ds" by (simp add: topo_deps_node)
  show ?thesis
  proof (cases "x = r")
    case True
    with ds r show ?thesis by (simp add: topo_edge_def topo_deps_def map_of_map_entry)
  next
    case False
    have "topo_deps (topo_edge l r db) x = topo_deps ?db x"
      using False by (simp add: topo_edge_def topo_deps_def map_of_map_entry)
    with False show ?thesis by (simp add: topo_deps_node)
  qed
qed

lemma topo_edges_edge: "topo_edges (topo_edge l r db) = insert (l, r) (topo_edges db)"
  by (auto simp: topo_edges_def topo_deps_edge split: if_splits)

lemma topo_node_distinct: "distinct (map fst db) \<Longrightarrow> distinct (map fst (topo_node n db))"
  by (auto simp: topo_node_def map_of_eq_None_iff)

lemma topo_edge_distinct: "distinct (map fst db) \<Longrightarrow> distinct (map fst (topo_edge l r db))"
proof -
  have "map fst (topo_edge l r db) = map fst (topo_node r (topo_node l db))"
    by (auto simp: topo_edge_def)
  then show "distinct (map fst db) \<Longrightarrow> distinct (map fst (topo_edge l r db))"
    by (simp add: topo_node_distinct)
qed

subsection \<open>The cells of one module\<close>

lemma new_edges_Cons:
  "new_edges d m (c # cs)
     = (if design_module d (cell_type c) \<noteq> None then {(cell_type c, mod_name m)} else {})
       \<union> new_edges d m cs"
  by (auto simp: new_edges_def)

lemma collect_cell_None:
  "design_module d (cell_type c) = None \<Longrightarrow> collect_cell d m c st = st"
  by (simp add: collect_cell_def)

lemma collect_cell_Some:
  assumes "design_module d (cell_type c) = Some tpl"
  shows "collect_cell d m c st =
     ((if cell_type c \<notin> fst ` set (snd st) then fst st @ [tpl] else fst st),
      topo_edge (cell_type c) (mod_name m) (snd st))"
proof -
  from assms have "mod_name tpl = cell_type c" by (rule design_module_name)
  with assms show ?thesis by (simp add: collect_cell_def map_of_eq_None_iff)
qed

lemma collect_cells_edges:
  "topo_edges (snd (fold (collect_cell d m) cs st)) = topo_edges (snd st) \<union> new_edges d m cs"
proof (induction cs arbitrary: st)
  case Nil
  then show ?case by (simp add: new_edges_def)
next
  case (Cons c cs)
  show ?case
  proof (cases "design_module d (cell_type c)")
    case None
    with Cons.IH [of st] show ?thesis by (simp add: collect_cell_None new_edges_Cons)
  next
    case (Some tpl)
    with Cons.IH [of "collect_cell d m c st"] show ?thesis
      by (simp add: collect_cell_Some new_edges_Cons topo_edges_edge)
  qed
qed

lemma collect_cells_nodes:
  "fst ` set (snd (fold (collect_cell d m) cs st))
     = fst ` set (snd st) \<union> fst ` new_edges d m cs \<union> snd ` new_edges d m cs"
proof (induction cs arbitrary: st)
  case Nil
  then show ?case by (simp add: new_edges_def)
next
  case (Cons c cs)
  show ?case
  proof (cases "design_module d (cell_type c)")
    case None
    with Cons.IH [of st] show ?thesis by (simp add: collect_cell_None new_edges_Cons)
  next
    case (Some tpl)
    with Cons.IH [of "collect_cell d m c st"] show ?thesis
      by (auto simp: collect_cell_Some new_edges_Cons topo_edge_dom)
  qed
qed

lemma collect_cells_distinct:
  "distinct (map fst (snd st)) \<Longrightarrow> distinct (map fst (snd (fold (collect_cell d m) cs st)))"
proof (induction cs arbitrary: st)
  case Nil
  then show ?case by simp
next
  case (Cons c cs)
  have "distinct (map fst (snd (collect_cell d m c st)))"
    using Cons.prems
    by (cases "design_module d (cell_type c)")
      (simp_all add: collect_cell_None collect_cell_Some topo_edge_distinct)
  from Cons.IH [OF this] show ?case by simp
qed

lemma collect_cells_worklist:
  assumes "mod_name m \<in> fst ` set (snd st)"
  shows "set (fst st) \<subseteq> set (fst (fold (collect_cell d m) cs st))
   \<and> set (fst (fold (collect_cell d m) cs st))
       \<subseteq> set (fst st) \<union> {tpl. \<exists>c \<in> set cs. design_module d (cell_type c) = Some tpl}
   \<and> (\<forall>c \<in> set cs. \<forall>tpl. design_module d (cell_type c) = Some tpl \<longrightarrow>
         cell_type c \<in> fst ` set (snd st) \<or> tpl \<in> set (fst (fold (collect_cell d m) cs st)))"
  using assms
proof (induction cs arbitrary: st)
  case Nil
  then show ?case by simp
next
  case (Cons c cs)
  let ?st = "collect_cell d m c st"
  let ?fin = "fold (collect_cell d m) cs ?st"
  show ?case
  proof (cases "design_module d (cell_type c)")
    case None
    then have "?st = st" by (simp add: collect_cell_None)
    with Cons.IH [of st] Cons.prems None show ?thesis by auto
  next
    case (Some tpl)
    have a: "set (fst st) \<subseteq> set (fst ?st)" "set (fst ?st) \<subseteq> insert tpl (set (fst st))"
      "cell_type c \<in> fst ` set (snd st) \<or> tpl \<in> set (fst ?st)"
      "fst ` set (snd ?st) = insert (cell_type c) (fst ` set (snd st))"
      using Some Cons.prems by (auto simp: collect_cell_Some topo_edge_dom)
    from a(4) Cons.prems have "mod_name m \<in> fst ` set (snd ?st)" by simp
    note ih = Cons.IH [OF this]
    have 1: "set (fst st) \<subseteq> set (fst ?fin)" using ih a(1) by blast
    have 2: "set (fst ?fin)
        \<subseteq> set (fst st) \<union> {tpl. \<exists>c \<in> set (c # cs). design_module d (cell_type c) = Some tpl}"
      using ih a(2) Some by auto
    have 3: "\<forall>c' \<in> set (c # cs). \<forall>tpl'. design_module d (cell_type c') = Some tpl' \<longrightarrow>
         cell_type c' \<in> fst ` set (snd st) \<or> tpl' \<in> set (fst ?fin)"
    proof (intro ballI allI impI)
      fix c' tpl'
      assume c': "c' \<in> set (c # cs)" and t: "design_module d (cell_type c') = Some tpl'"
      show "cell_type c' \<in> fst ` set (snd st) \<or> tpl' \<in> set (fst ?fin)"
      proof (cases "cell_type c' = cell_type c")
        case True
        with t Some have "tpl' = tpl" by simp
        with True a(3) ih show ?thesis by auto
      next
        case False
        with c' have "c' \<in> set cs" by auto
        with ih t have "cell_type c' \<in> fst ` set (snd ?st) \<or> tpl' \<in> set (fst ?fin)" by blast
        with a(4) False show ?thesis by auto
      qed
    qed
    from 1 2 3 show ?thesis by simp
  qed
qed

subsection \<open>The collected graph\<close>

lemma collect_modules_induct [consumes 1, case_names Empty Step]:
  assumes "collect_modules d st = Some r"
    and empty: "\<And>st. fst st = [] \<Longrightarrow> P st (snd st)"
    and step: "\<And>st m rest r. fst st = m # rest \<Longrightarrow> P (collect_step d m rest (snd st)) r \<Longrightarrow> P st r"
  shows "P st r"
proof -
  have "d = d \<longrightarrow> P st r"
  proof (rule collect_modules.raw_induct [where P = "\<lambda>d' st r. d' = d \<longrightarrow> P st r", OF _ assms(1)])
    fix f :: "design \<Rightarrow> rtl_module list \<times> toposort \<Rightarrow> toposort option" and d' st r
    assume ih: "\<And>d' st r. f d' st = Some r \<Longrightarrow> d' = d \<longrightarrow> P st r"
      and eq: "(case fst st of [] \<Rightarrow> Some (snd st)
                | m # rest \<Rightarrow> f d' (collect_step d' m rest (snd st))) = Some r"
    show "d' = d \<longrightarrow> P st r"
    proof
      assume d: "d' = d"
      show "P st r"
      proof (cases "fst st")
        case Nil
        with eq have "r = snd st" by simp
        with Nil empty show ?thesis by simp
      next
        case (Cons m rest)
        with eq d have "f d (collect_step d m rest (snd st)) = Some r" by simp
        from ih [OF this] have "P (collect_step d m rest (snd st)) r" by simp
        with Cons show ?thesis by (rule step)
      qed
    qed
  qed
  then show ?thesis by simp
qed

lemma wf_design_module:
  assumes "wf_design d" "m \<in> set (design_modules d)"
  shows "design_module d (mod_name m) = Some m"
proof -
  have "\<And>ms. distinct (map mod_name ms) \<Longrightarrow> m \<in> set ms \<Longrightarrow> find (\<lambda>m'. mod_name m' = mod_name m) ms = Some m"
  proof -
    fix ms show "distinct (map mod_name ms) \<Longrightarrow> m \<in> set ms \<Longrightarrow> find (\<lambda>m'. mod_name m' = mod_name m) ms = Some m"
      by (induction ms) (auto simp: image_iff)
  qed
  with assms show ?thesis by (simp add: wf_design_def design_module_def)
qed

lemma new_edges_inst_rel:
  assumes "wf_design d" "m \<in> set (design_modules d)"
  shows "new_edges d m (selected_cells m) = {(child, mod_name m) |child. (child, mod_name m) \<in> inst_rel d}"
proof -
  from assms have "design_module d (mod_name m) = Some m" by (rule wf_design_module)
  then show ?thesis
    by (auto simp: new_edges_def inst_rel_def instantiates_def list_ex_iff)
qed


lemma analysed_child:
  assumes "(child, n) \<in> inst_rel d" "n \<in> analysed d"
  shows "child \<in> analysed d"
  using assms by (auto simp: analysed_def intro: converse_rtrancl_into_rtrancl)

lemma collect_step_inv:
  assumes wf: "wf_design d" and inv: "collect_inv d (m # rest, db)"
  shows "collect_inv d (collect_step d m rest db)"
proof -
  let ?st0 = "(rest, topo_node (mod_name m) db)"
  let ?fin = "fold (collect_cell d m) (selected_cells m) ?st0"
  let ?NE = "new_edges d m (selected_cells m)"
  from inv have m: "m \<in> set (design_modules d)" and rest: "set rest \<subseteq> set (design_modules d)"
    and edges: "topo_edges db \<subseteq> inst_rel d"
    and src: "fst ` topo_edges db \<subseteq> fst ` set db"
    and compl: "\<And>n. n \<in> fst ` set db \<Longrightarrow> n = mod_name m \<or> n \<in> mod_name ` set rest
         \<or> (\<forall>child. (child, n) \<in> inst_rel d \<longrightarrow> (child, n) \<in> topo_edges db)"
    and dist: "distinct (map fst db)"
    and sel: "mod_name ` set (selected_modules d) \<subseteq> fst ` set db \<union> insert (mod_name m) (mod_name ` set rest)"
    and ana: "fst ` set db \<union> insert (mod_name m) (mod_name ` set rest) \<subseteq> analysed d"
    by (auto simp: collect_inv_def)
  have NE: "?NE = {(child, mod_name m) |child. (child, mod_name m) \<in> inst_rel d}"
    using wf m by (rule new_edges_inst_rel)
  have E: "topo_edges (snd ?fin) = topo_edges db \<union> ?NE"
    by (simp add: collect_cells_edges topo_edges_node)
  have N: "fst ` set (snd ?fin) = insert (mod_name m) (fst ` set db) \<union> fst ` ?NE \<union> snd ` ?NE"
    by (simp add: collect_cells_nodes topo_node_dom)
  have "mod_name m \<in> fst ` set (snd ?st0)" by (simp add: topo_node_dom)
  from collect_cells_worklist [OF this, of d "selected_cells m"]
  have W1: "set rest \<subseteq> set (fst ?fin)"
    and W2: "set (fst ?fin) \<subseteq> set rest
        \<union> {tpl. \<exists>c \<in> set (selected_cells m). design_module d (cell_type c) = Some tpl}"
    and W3: "\<And>c tpl. c \<in> set (selected_cells m) \<Longrightarrow> design_module d (cell_type c) = Some tpl \<Longrightarrow>
         cell_type c \<in> insert (mod_name m) (fst ` set db) \<or> tpl \<in> set (fst ?fin)"
    by (auto simp: topo_node_dom)
  have D: "distinct (map fst (snd ?fin))"
    using dist by (intro collect_cells_distinct) (simp add: topo_node_distinct)
  have c1: "set (fst ?fin) \<subseteq> set (design_modules d)"
    using W2 rest by (auto dest: design_module_Some)
  have c2: "topo_edges (snd ?fin) \<subseteq> inst_rel d" using E NE edges by auto
  have c3: "fst ` topo_edges (snd ?fin) \<subseteq> fst ` set (snd ?fin)" using E N src by auto
  have c4: "\<forall>n \<in> fst ` set (snd ?fin). n \<in> mod_name ` set (fst ?fin)
       \<or> (\<forall>child. (child, n) \<in> inst_rel d \<longrightarrow> (child, n) \<in> topo_edges (snd ?fin))"
  proof
    fix n assume n: "n \<in> fst ` set (snd ?fin)"
    have self: "\<forall>child. (child, mod_name m) \<in> inst_rel d \<longrightarrow> (child, mod_name m) \<in> topo_edges (snd ?fin)"
      using E NE by auto
    have old: "n \<in> fst ` set db \<Longrightarrow> n \<in> mod_name ` set (fst ?fin)
       \<or> (\<forall>child. (child, n) \<in> inst_rel d \<longrightarrow> (child, n) \<in> topo_edges (snd ?fin))"
      using compl [of n] self W1 E by auto
    from n N consider "n = mod_name m" | "n \<in> fst ` set db" | "n \<in> fst ` ?NE" | "n \<in> snd ` ?NE"
      by auto
    then show "n \<in> mod_name ` set (fst ?fin)
       \<or> (\<forall>child. (child, n) \<in> inst_rel d \<longrightarrow> (child, n) \<in> topo_edges (snd ?fin))"
    proof cases
      case 1
      with self show ?thesis by simp
    next
      case 2
      then show ?thesis by (rule old)
    next
      case 3
      then obtain c tpl where c: "c \<in> set (selected_cells m)" "n = cell_type c"
        "design_module d (cell_type c) = Some tpl"
        by (auto simp: new_edges_def)
      from W3 [OF c(1,3)] consider "cell_type c = mod_name m" | "cell_type c \<in> fst ` set db"
        | "tpl \<in> set (fst ?fin)" by auto
      then show ?thesis
      proof cases
        case 1
        with c(2) self show ?thesis by simp
      next
        case 2
        with c(2) old show ?thesis by simp
      next
        case 3
        moreover from c(3) have "mod_name tpl = cell_type c" by (rule design_module_name)
        ultimately show ?thesis using c(2) by force
      qed
    next
      case 4
      then have "n = mod_name m" by (auto simp: new_edges_def)
      with self show ?thesis by simp
    qed
  qed
  have c6: "mod_name ` set (selected_modules d) \<subseteq> fst ` set (snd ?fin) \<union> mod_name ` set (fst ?fin)"
  proof -
    from W1 have "mod_name ` set rest \<subseteq> mod_name ` set (fst ?fin)" by (rule image_mono)
    with sel N show ?thesis by blast
  qed
  have c7: "fst ` set (snd ?fin) \<union> mod_name ` set (fst ?fin) \<subseteq> analysed d"
  proof -
    have ma: "mod_name m \<in> analysed d" using ana by simp
    have "fst ` ?NE \<subseteq> analysed d" using NE ma by (auto intro: analysed_child)
    moreover have "snd ` ?NE \<subseteq> analysed d" using NE ma by auto
    moreover have "mod_name ` set (fst ?fin) \<subseteq> analysed d"
    proof
      fix x assume "x \<in> mod_name ` set (fst ?fin)"
      then obtain t where t: "t \<in> set (fst ?fin)" "x = mod_name t" by auto
      with W2 consider "t \<in> set rest"
        | c where "c \<in> set (selected_cells m)" "design_module d (cell_type c) = Some t" by auto
      then show "x \<in> analysed d"
      proof cases
        case 1
        with t(2) ana show ?thesis by auto
      next
        case 2
        then have "(cell_type c, mod_name m) \<in> ?NE" "mod_name t = cell_type c"
          by (auto simp: new_edges_def dest: design_module_name)
        with NE t(2) ma show ?thesis by (auto intro: analysed_child)
      qed
    qed
    ultimately show ?thesis using N ana by auto
  qed
  from c1 c2 c3 c4 D c6 c7 show ?thesis
    unfolding collect_inv_def collect_step_def by simp
qed

lemma collect_modules_inv:
  assumes "collect_modules d st = Some topo" "wf_design d"
  shows "collect_inv d st \<longrightarrow> collect_inv d ([], topo)"
  using assms(1)
proof (induction rule: collect_modules_induct)
  case (Empty st)
  then show ?case by (cases st) simp
next
  case (Step st m rest r)
  show ?case
  proof
    assume "collect_inv d st"
    with Step(1) have "collect_inv d (m # rest, snd st)" by (cases st) simp
    from collect_step_inv [OF assms(2) this] Step(2) show "collect_inv d ([], r)" by simp
  qed
qed

lemma collect_inv_initial: "collect_inv d (selected_modules d, [])"
proof -
  have "mod_name ` set (selected_modules d) \<subseteq> analysed d" by (auto simp: analysed_def)
  then show ?thesis
    by (auto simp: collect_inv_def topo_edges_def topo_deps_def selected_modules_def)
qed

text \<open>The database that the loop leaves: its nodes are the modules under analysis, its edges their instantiations.\<close>

lemma collect_modules_graph:
  assumes "collect_modules d (selected_modules d, []) = Some topo" "wf_design d"
  shows "fst ` set topo = analysed d"
    and "topo_edges topo = {(child, n). (child, n) \<in> inst_rel d \<and> n \<in> analysed d}"
    and "distinct (map fst topo)"
proof -
  from collect_modules_inv [OF assms] collect_inv_initial have inv: "collect_inv d ([], topo)" by simp
  then have edges: "topo_edges topo \<subseteq> inst_rel d"
    and src: "fst ` topo_edges topo \<subseteq> fst ` set topo"
    and compl: "\<And>n child. n \<in> fst ` set topo \<Longrightarrow> (child, n) \<in> inst_rel d \<Longrightarrow> (child, n) \<in> topo_edges topo"
    and sel: "mod_name ` set (selected_modules d) \<subseteq> fst ` set topo"
    and ana: "fst ` set topo \<subseteq> analysed d"
    by (auto simp: collect_inv_def)
  from inv show "distinct (map fst topo)" by (simp add: collect_inv_def)
  have "analysed d \<subseteq> fst ` set topo"
  proof
    fix n assume "n \<in> analysed d"
    then obtain s where s: "s \<in> set (selected_modules d)" "(n, mod_name s) \<in> (inst_rel d)\<^sup>*"
      by (auto simp: analysed_def)
    from s(2) show "n \<in> fst ` set topo"
    proof (induction rule: converse_rtrancl_induct)
      case base
      with s(1) sel show ?case by auto
    next
      case (step y z)
      from compl [OF step.IH step.hyps(1)] src show ?case by force
    qed
  qed
  with ana show nodes: "fst ` set topo = analysed d" by auto
  show "topo_edges topo = {(child, n). (child, n) \<in> inst_rel d \<and> n \<in> analysed d}"
  proof (intro equalityI subsetI)
    fix e assume e: "e \<in> topo_edges topo"
    then obtain child n where "e = (child, n)" by (cases e)
    with e edges nodes show "e \<in> {(child, n). (child, n) \<in> inst_rel d \<and> n \<in> analysed d}"
      by (auto dest: topo_edges_snd)
  next
    fix e assume "e \<in> {(child, n). (child, n) \<in> inst_rel d \<and> n \<in> analysed d}"
    with nodes compl show "e \<in> topo_edges topo" by auto
  qed
qed

section \<open>Properties of the passes\<close>

lemma workers_log:
  assumes "for_each_state xs ControlRegistersProbesWorker (d, log) = (e, d', log')"
  shows "\<exists>k \<le> length xs. log' = log @ take k xs \<and> (xs \<noteq> [] \<longrightarrow> 0 < k) \<and> (e = None \<longrightarrow> k = length xs)"
  using assms
proof (induction xs arbitrary: d log)
  case Nil
  then show ?case by simp
next
  case (Cons n xs)
  obtain e1 d1 where w: "ControlRegistersProbesWorker n (d, log) = (e1, d1, log @ [n])"
    by (cases "design_module d n"; cases "create_control_registers_probes d (the (design_module d n))")
      (auto simp: ControlRegistersProbesWorker_def)
  show ?case
  proof (cases e1)
    case (Some err)
    with w Cons.prems have "log' = log @ [n]" "e = Some err" by simp_all
    then have "log' = log @ take 1 (n # xs) \<and> (n # xs \<noteq> [] \<longrightarrow> 0 < (1::nat))
        \<and> (e = None \<longrightarrow> 1 = length (n # xs))" by simp
    then show ?thesis by (intro exI [of _ 1]) simp
  next
    case None
    with w Cons.prems have "for_each_state xs ControlRegistersProbesWorker (d1, log @ [n]) = (e, d', log')"
      by simp
    from Cons.IH [OF this] obtain k where "k \<le> length xs" "log' = (log @ [n]) @ take k xs"
      "e = None \<longrightarrow> k = length xs" by blast
    then have "Suc k \<le> length (n # xs) \<and> log' = log @ take (Suc k) (n # xs)
        \<and> (n # xs \<noteq> [] \<longrightarrow> 0 < Suc k) \<and> (e = None \<longrightarrow> Suc k = length (n # xs))" by simp
    then show ?thesis by blast
  qed
qed

lemma inst_rel_trancl_analysed:
  assumes "(x, y) \<in> (inst_rel d)\<^sup>+"
  shows "y \<in> analysed d \<longrightarrow> (x, y) \<in> {(child, n). (child, n) \<in> inst_rel d \<and> n \<in> analysed d}\<^sup>+"
  using assms
proof (induction rule: converse_trancl_induct)
  case (base x)
  then show ?case by auto
next
  case (step x z)
  show ?case
  proof
    assume y: "y \<in> analysed d"
    with step.IH have zy: "(z, y) \<in> {(child, n). (child, n) \<in> inst_rel d \<and> n \<in> analysed d}\<^sup>+" by simp
    then have "z \<in> analysed d"
      by (induction rule: converse_trancl_induct) (auto intro: analysed_child)
    with step.hyps(1) have "(x, z) \<in> {(child, n). (child, n) \<in> inst_rel d \<and> n \<in> analysed d}" by simp
    then show "(x, y) \<in> {(child, n). (child, n) \<in> inst_rel d \<and> n \<in> analysed d}\<^sup>+"
      using zy by (rule trancl_into_trancl2)
  qed
qed

text \<open>
  The orderer accepts the collected graph exactly when no module under analysis instantiates
  itself, directly or not.
\<close>

lemma orderer_accepts_iff:
  assumes "collect_modules d (selected_modules d, []) = Some topo" "wf_design d"
  shows "fst (topo_sort topo) \<longleftrightarrow> (\<forall>n \<in> analysed d. (n, n) \<notin> (inst_rel d)\<^sup>+)"
proof -
  let ?E = "{(child, n). (child, n) \<in> inst_rel d \<and> n \<in> analysed d}"
  note g = collect_modules_graph [OF assms]
  show ?thesis
  proof
    assume ok: "fst (topo_sort topo)"
    show "\<forall>n \<in> analysed d. (n, n) \<notin> (inst_rel d)\<^sup>+"
    proof (intro ballI notI)
      fix n assume "n \<in> analysed d" "(n, n) \<in> (inst_rel d)\<^sup>+"
      with inst_rel_trancl_analysed [of n n d] have "(n, n) \<in> ?E\<^sup>+" by simp
      then have "\<not> acyclic (topo_edges topo)" using g(2) by (auto simp: acyclic_def)
      from topo_sort_cyclic [OF this] ok show False by simp
    qed
  next
    assume ac: "\<forall>n \<in> analysed d. (n, n) \<notin> (inst_rel d)\<^sup>+"
    have "acyclic ?E"
      unfolding acyclic_def
    proof (intro allI notI)
      fix x assume x: "(x, x) \<in> ?E\<^sup>+"
      then have "x \<in> analysed d" by (induction rule: trancl_induct) auto
      moreover have "?E \<subseteq> inst_rel d" by auto
      then have "(x, x) \<in> (inst_rel d)\<^sup>+" using x trancl_mono by blast
      ultimately show False using ac by blast
    qed
    moreover have "fst ` ?E \<subseteq> analysed d" by (auto intro: analysed_child)
    ultimately show "fst (topo_sort topo)"
      using g(1,2) by (intro topo_sort_complete) simp_all
  qed
qed

subsection \<open>The order of processing\<close>

lemma analysed_nonempty: "n \<in> analysed d \<Longrightarrow> selected_modules d \<noteq> []"
  by (auto simp: analysed_def)

lemma pull_execute_cases:
  assumes "ControlRegistersProbesPass_execute d = Some (err, d', processed)"
  obtains (empty) "selected_modules d = []" "err = Some Empty_selection" "d' = d" "processed = []"
  | (recursive) topo where "selected_modules d \<noteq> []"
      "collect_modules d (selected_modules d, []) = Some topo" "\<not> fst (topo_sort topo)"
      "err = Some Recursive_modules" "d' = d" "processed = []"
  | (sorted) topo where "selected_modules d \<noteq> []"
      "collect_modules d (selected_modules d, []) = Some topo" "fst (topo_sort topo)"
      "for_each_state (snd (topo_sort topo)) ControlRegistersProbesWorker (d, []) = (err, d', processed)"
  using assms unfolding ControlRegistersProbesPass_execute_def
  by (auto split: if_splits option.splits)

lemma chain_order:
  assumes ord: "\<forall>i < length processed. \<forall>m child.
            design_module d (processed ! i) = Some m \<and> instantiates d m child \<longrightarrow>
            child \<in> set (take i processed)"
    and set: "set processed = {a, b, c}" and dist: "distinct processed"
    and ne: "a \<noteq> b" "b \<noteq> c" "a \<noteq> c"
    and ab: "design_module d a = Some ma" "instantiates d ma b"
    and bc: "design_module d b = Some mb" "instantiates d mb c"
  shows "processed = [c, b, a]"
proof -
  from set dist ne have "length processed = 3"
    using distinct_card [of processed] by simp
  then obtain x y z where p: "processed = [x, y, z]"
    by (cases processed; cases "tl processed"; cases "tl (tl processed)") auto
  have before_a: "\<And>i. i < 3 \<Longrightarrow> processed ! i = a \<Longrightarrow> b \<in> set (take i processed)"
    using ord ab p by auto
  have before_b: "\<And>i. i < 3 \<Longrightarrow> processed ! i = b \<Longrightarrow> c \<in> set (take i processed)"
    using ord bc p by auto
  have xa: "x \<noteq> a" using before_a [of 0] p by auto
  have xb: "x \<noteq> b" using before_b [of 0] p by auto
  from set p xa xb have x: "x = c" by auto
  have ya: "y \<noteq> a" using before_a [of 1] p x ne by auto
  from set p dist x ya have y: "y = b" by auto
  from set p dist x y have "z = a" by auto
  with p x y show ?thesis by simp
qed

lemma instantiates_any_selected:
  assumes "list_all cell_selected (mod_cells m)"
  shows "instantiates_any d m child = instantiates d m child"
proof -
  from assms have "selected_cells m = mod_cells m"
    by (simp add: selected_cells_def list_all_iff)
  then show ?thesis by (simp add: instantiates_any_def instantiates_def)
qed

lemma conj_append: "A \<and> B \<and> C \<and> D \<Longrightarrow> E \<Longrightarrow> A \<and> B \<and> C \<and> D \<and> E"
  by blast

text \<open>
  C3 (as the code has it). In a design whose modules have different names, the modules that the
  pass hands to a worker are handed over in an order in which every module comes after all the
  modules it instantiates through a selected cell; the loop of lines 158 to 165 reads no other
  cell. When no module under analysis instantiates itself, directly or not, and the selection is
  not empty, the orderer accepts and processing starts. A run without error processes every
  module under analysis once. When the modules under analysis are a chain of three, \<open>a\<close>
  instantiating \<open>b\<close> and \<open>b\<close> instantiating \<open>c\<close> through selected cells, the modules
  processed are \<open>c\<close>, then \<open>b\<close>, then \<open>a\<close>: the first of them up to the module at which a
  worker fails, and all three in a run without error. For a module whose cells are all selected,
  instantiating through a selected cell is instantiating through any cell. The orderer itself
  (\<^verbatim>\<open>TopoSort\<close>) is modelled from the specification.
\<close>

theorem pull_probes_dependency_order:
  assumes "wf_design d" and "ControlRegistersProbesPass_execute d = Some (err, d', processed)"
  shows "(\<forall>i < length processed. \<forall>m child.
            design_module d (processed ! i) = Some m \<and> instantiates d m child \<longrightarrow>
            child \<in> set (take i processed))
     \<and> ((\<forall>n \<in> analysed d. (n, n) \<notin> (inst_rel d)\<^sup>+) \<and> selected_modules d \<noteq> [] \<longrightarrow>
          processed \<noteq> [])
     \<and> (err = None \<longrightarrow> set processed = analysed d \<and> distinct processed)
     \<and> (analysed d = {a, b, c} \<and> a \<noteq> b \<and> b \<noteq> c \<and> a \<noteq> c
          \<and> design_module d a = Some ma \<and> instantiates d ma b
          \<and> design_module d b = Some mb \<and> instantiates d mb c \<longrightarrow>
        (\<exists>k. processed = take k [c, b, a]) \<and> (err = None \<longrightarrow> processed = [c, b, a]))
     \<and> (list_all cell_selected (mod_cells m0) \<longrightarrow>
          instantiates_any d m0 child0 = instantiates d m0 child0)"
proof -
  have 5: "list_all cell_selected (mod_cells m0) \<longrightarrow>
          instantiates_any d m0 child0 = instantiates d m0 child0"
    using instantiates_any_selected by blast
  have nil: "\<exists>k. [] = take k [c, b, a]" by (rule exI [of _ 0]) simp
  from assms(2) have "(\<forall>i < length processed. \<forall>m child.
            design_module d (processed ! i) = Some m \<and> instantiates d m child \<longrightarrow>
            child \<in> set (take i processed))
     \<and> ((\<forall>n \<in> analysed d. (n, n) \<notin> (inst_rel d)\<^sup>+) \<and> selected_modules d \<noteq> [] \<longrightarrow>
          processed \<noteq> [])
     \<and> (err = None \<longrightarrow> set processed = analysed d \<and> distinct processed)
     \<and> (analysed d = {a, b, c} \<and> a \<noteq> b \<and> b \<noteq> c \<and> a \<noteq> c
          \<and> design_module d a = Some ma \<and> instantiates d ma b
          \<and> design_module d b = Some mb \<and> instantiates d mb c \<longrightarrow>
        (\<exists>k. processed = take k [c, b, a]) \<and> (err = None \<longrightarrow> processed = [c, b, a]))"
  proof (cases rule: pull_execute_cases)
    case empty
    with nil show ?thesis by simp
  next
    case (recursive topo)
    from orderer_accepts_iff [OF recursive(2) assms(1)] recursive(3)
    have "\<not> (\<forall>n \<in> analysed d. (n, n) \<notin> (inst_rel d)\<^sup>+)" by simp
    with recursive(4,6) nil show ?thesis by simp
  next
    case (sorted topo)
    obtain out where out: "topo_sort topo = (True, out)"
      using sorted(3) by (cases "topo_sort topo") auto
    note g = collect_modules_graph [OF sorted(2) assms(1)]
    from topo_sort_sound [OF out] g(3)
    have ord: "topo_ordered topo out" and nodes: "set out = analysed d" and dist: "distinct out"
      using g(1) by simp_all
    from sorted(4) out have "for_each_state out ControlRegistersProbesWorker (d, []) = (err, d', processed)"
      by simp
    from workers_log [OF this] obtain k where k: "k \<le> length out" "processed = take k out"
      "out \<noteq> [] \<longrightarrow> 0 < k" "err = None \<longrightarrow> k = length out" by auto
    have whole: "\<forall>i < length out. \<forall>m child.
              design_module d (out ! i) = Some m \<and> instantiates d m child \<longrightarrow>
              child \<in> set (take i out)"
    proof (intro allI impI)
      fix i m child
      assume i: "i < length out"
        and m: "design_module d (out ! i) = Some m \<and> instantiates d m child"
      then have "(child, out ! i) \<in> inst_rel d" by (auto simp: inst_rel_def)
      moreover from i nodes have "out ! i \<in> analysed d" by (metis nth_mem)
      ultimately have "(child, out ! i) \<in> topo_edges topo" using g(2) by simp
      then have "child \<in> set (topo_deps topo (out ! i))" by (simp add: topo_edges_def)
      with ord i show "child \<in> set (take i out)" by (auto simp: topo_ordered_def)
    qed
    have 1: "\<forall>i < length processed. \<forall>m child.
              design_module d (processed ! i) = Some m \<and> instantiates d m child \<longrightarrow>
              child \<in> set (take i processed)"
    proof (intro allI impI)
      fix i m child
      assume i: "i < length processed"
        and m: "design_module d (processed ! i) = Some m \<and> instantiates d m child"
      from i k have ik: "i < k" "i < length out" "processed ! i = out ! i" by simp_all
      with m have "design_module d (out ! i) = Some m \<and> instantiates d m child" by simp
      with whole ik(2) have "child \<in> set (take i out)" by blast
      moreover from ik(1) k(2) have "take i processed = take i out" by (simp add: min_def)
      ultimately show "child \<in> set (take i processed)" by simp
    qed
    have 2: "processed \<noteq> []"
    proof -
      from sorted(1) obtain s where "s \<in> set (selected_modules d)" by (cases "selected_modules d") auto
      then have "mod_name s \<in> analysed d" by (auto simp: analysed_def)
      with nodes have "out \<noteq> []" by auto
      with k show ?thesis by auto
    qed
    have 3: "err = None \<longrightarrow> set processed = analysed d \<and> distinct processed"
      using k nodes dist by auto
    have 4: "analysed d = {a, b, c} \<and> a \<noteq> b \<and> b \<noteq> c \<and> a \<noteq> c
            \<and> design_module d a = Some ma \<and> instantiates d ma b
            \<and> design_module d b = Some mb \<and> instantiates d mb c \<longrightarrow>
          (\<exists>k. processed = take k [c, b, a]) \<and> (err = None \<longrightarrow> processed = [c, b, a])"
    proof
      assume h: "analysed d = {a, b, c} \<and> a \<noteq> b \<and> b \<noteq> c \<and> a \<noteq> c
            \<and> design_module d a = Some ma \<and> instantiates d ma b
            \<and> design_module d b = Some mb \<and> instantiates d mb c"
      with nodes have "set out = {a, b, c}" by simp
      with whole have o: "out = [c, b, a]"
        using dist h by (intro chain_order [of out d a b c ma mb]) simp_all
      with k(2) have "\<exists>k. processed = take k [c, b, a]" by blast
      moreover from k(2,4) o have "err = None \<longrightarrow> processed = [c, b, a]" by simp
      ultimately show "(\<exists>k. processed = take k [c, b, a]) \<and> (err = None \<longrightarrow> processed = [c, b, a])"
        by simp
    qed
    from 1 2 3 4 show ?thesis by simp
  qed
  then show ?thesis using 5 by (rule conj_append)
qed

lemma example_chain_edges:
  assumes "(child, parent) \<in> inst_rel example_chain"
  shows "(child, parent) = (backslash # ''B'', backslash # ''A'')
     \<or> (child, parent) = (backslash # ''C'', backslash # ''B'')"
proof -
  from assms obtain m where m: "m \<in> set (design_modules example_chain)" "mod_name m = parent"
    and i: "instantiates example_chain m child"
    by (auto simp: inst_rel_def dest: design_module_Some)
  from m(1) consider "m = example_module ''A'' [] [example_instance ''b0'' 1 ''B'']"
    | "m = example_module ''B'' [] [example_instance ''c0'' 2 ''C'']"
    | "m = example_module ''C'' [''clk'', ''next'', ''state''] [example_register]"
    by (auto simp: example_chain_def)
  then show ?thesis
  proof cases
    case 1
    with i m(2) show ?thesis
      by (auto simp: instantiates_def selected_cells_def example_module_def example_instance_def)
  next
    case 2
    with i m(2) show ?thesis
      by (auto simp: instantiates_def selected_cells_def example_module_def example_instance_def)
  next
    case 3
    have "design_module example_chain (cell_type example_register) = None" by code_simp
    moreover have "selected_cells m = [example_register]"
      by (simp add: 3 selected_cells_def example_module_def example_register_def)
    ultimately have "\<not> instantiates example_chain m child" by (simp add: instantiates_def)
    with i show ?thesis by simp
  qed
qed

lemma example_chain_acyclic: "acyclic (inst_rel example_chain)"
proof -
  let ?rank = "\<lambda>n. if n = backslash # ''C'' then (0::nat) else if n = backslash # ''B'' then 1 else 2"
  have "inst_rel example_chain \<subseteq> inv_image less_than ?rank"
  proof
    fix e assume e: "e \<in> inst_rel example_chain"
    obtain child parent where cp: "e = (child, parent)" by (cases e)
    with e example_chain_edges [of child parent] show "e \<in> inv_image less_than ?rank"
      by (auto simp: backslash_def)
  qed
  moreover have "wf (inv_image less_than ?rank)" by simp
  ultimately have "wf (inst_rel example_chain)" by (rule wf_subset [rotated])
  then show ?thesis by (rule wf_acyclic)
qed

theorem pull_probes_dependency_order_witness:
  "wf_design example_chain
   \<and> acyclic (inst_rel example_chain)
   \<and> selected_modules example_chain \<noteq> []
   \<and> design_module example_chain (backslash # ''A'')
        = Some (example_module ''A'' [] [example_instance ''b0'' 1 ''B''])
   \<and> instantiates example_chain (example_module ''A'' [] [example_instance ''b0'' 1 ''B''])
        (backslash # ''B'')
   \<and> design_module example_chain (backslash # ''B'')
        = Some (example_module ''B'' [] [example_instance ''c0'' 2 ''C''])
   \<and> instantiates example_chain (example_module ''B'' [] [example_instance ''c0'' 2 ''C''])
        (backslash # ''C'')
   \<and> (\<exists>d' processed. ControlRegistersProbesPass_execute example_chain = Some (None, d', processed)
        \<and> processed = [backslash # ''C'', backslash # ''B'', backslash # ''A'']
        \<and> backslash # ''B'' \<in> set (take 2 processed))
   \<and> analysed example_chain = {backslash # ''A'', backslash # ''B'', backslash # ''C''}
   \<and> list_all cell_selected (mod_cells (example_module ''A'' [] [example_instance ''b0'' 1 ''B'']))
   \<and> instantiates_any example_chain (example_module ''A'' [] [example_instance ''b0'' 1 ''B''])
        (backslash # ''B'')"
proof -
  let ?A = "backslash # ''A''" and ?B = "backslash # ''B''" and ?C = "backslash # ''C''"
  let ?mA = "example_module ''A'' [] [example_instance ''b0'' 1 ''B'']"
  let ?mB = "example_module ''B'' [] [example_instance ''c0'' 2 ''C'']"
  have wf: "wf_design example_chain" by code_simp
  have sel: "selected_modules example_chain \<noteq> []" by code_simp
  have mA: "design_module example_chain ?A = Some ?mA" by code_simp
  have iA: "instantiates example_chain ?mA ?B" by code_simp
  have mB: "design_module example_chain ?B = Some ?mB" by code_simp
  have iB: "instantiates example_chain ?mB ?C" by code_simp
  have allsel: "list_all cell_selected (mod_cells ?mA)" by code_simp
  have ne: "?A \<noteq> ?B" "?B \<noteq> ?C" "?A \<noteq> ?C" by simp_all
  have "map_option fst (ControlRegistersProbesPass_execute example_chain) = Some None" by code_simp
  then obtain r where r: "ControlRegistersProbesPass_execute example_chain = Some r" "fst r = None"
    by (cases "ControlRegistersProbesPass_execute example_chain") auto
  obtain e d' processed where "r = (e, d', processed)" by (cases r)
  with r have run: "ControlRegistersProbesPass_execute example_chain = Some (None, d', processed)"
    by simp
  have ac: "\<forall>n \<in> analysed example_chain. (n, n) \<notin> (inst_rel example_chain)\<^sup>+"
    using example_chain_acyclic by (simp add: acyclic_def)
  note inst = pull_probes_dependency_order [OF wf run, of ?A ?B ?C ?mA ?mB ?mA ?B]
  from inst have "(\<forall>n \<in> analysed example_chain. (n, n) \<notin> (inst_rel example_chain)\<^sup>+)
      \<and> selected_modules example_chain \<noteq> [] \<longrightarrow> processed \<noteq> []"
    by (rule conjunct1 [OF conjunct2])
  with ac sel have started: "processed \<noteq> []" by simp
  have sub: "analysed example_chain \<subseteq> {?A, ?B, ?C}"
  proof
    fix n assume "n \<in> analysed example_chain"
    then obtain s where s: "s \<in> set (selected_modules example_chain)"
      "(n, mod_name s) \<in> (inst_rel example_chain)\<^sup>*" by (auto simp: analysed_def)
    have "mod_name ` set (selected_modules example_chain) = {?A, ?B, ?C}" by code_simp
    with s(1) have top: "mod_name s \<in> {?A, ?B, ?C}" by blast
    from s(2) top show "n \<in> {?A, ?B, ?C}"
    proof (induction rule: converse_rtrancl_induct)
      case base
      then show ?case by simp
    next
      case (step y z)
      from example_chain_edges [OF step.hyps(1)] show ?case by auto
    qed
  qed
  have sup: "{?A, ?B, ?C} \<subseteq> analysed example_chain"
  proof -
    have "mod_name ` set (selected_modules example_chain) = {?A, ?B, ?C}" by code_simp
    moreover have "mod_name ` set (selected_modules example_chain) \<subseteq> analysed example_chain"
      by (auto simp: analysed_def)
    ultimately show ?thesis by simp
  qed
  from sub sup have chain: "analysed example_chain = {?A, ?B, ?C}" by (rule equalityI)
  from inst have "analysed example_chain = {?A, ?B, ?C} \<and> ?A \<noteq> ?B \<and> ?B \<noteq> ?C
      \<and> ?A \<noteq> ?C \<and> design_module example_chain ?A = Some ?mA \<and> instantiates example_chain ?mA ?B
      \<and> design_module example_chain ?B = Some ?mB \<and> instantiates example_chain ?mB ?C \<longrightarrow>
      (\<exists>k. processed = take k [?C, ?B, ?A])
      \<and> ((None :: error option) = None \<longrightarrow> processed = [?C, ?B, ?A])"
    by (rule conjunct1 [OF conjunct2 [OF conjunct2 [OF conjunct2]]])
  with chain ne mA iA mB iB have order: "processed = [?C, ?B, ?A]" by simp
  from inst have "\<forall>i < length processed. \<forall>m child.
            design_module example_chain (processed ! i) = Some m \<and> instantiates example_chain m child \<longrightarrow>
            child \<in> set (take i processed)" by (rule conjunct1)
  then have "2 < length processed \<longrightarrow> (design_module example_chain (processed ! 2) = Some ?mA
      \<and> instantiates example_chain ?mA ?B \<longrightarrow> ?B \<in> set (take 2 processed))" by blast
  moreover from order have "2 < length processed" "processed ! 2 = ?A" by simp_all
  ultimately have before: "?B \<in> set (take 2 processed)" using mA iA by simp
  from inst have "list_all cell_selected (mod_cells ?mA) \<longrightarrow>
      instantiates_any example_chain ?mA ?B = instantiates example_chain ?mA ?B"
    by (rule conjunct2 [OF conjunct2 [OF conjunct2 [OF conjunct2]]])
  with allsel iA have any: "instantiates_any example_chain ?mA ?B" by simp
  have ex: "\<exists>d' processed. ControlRegistersProbesPass_execute example_chain = Some (None, d', processed)
        \<and> processed = [?C, ?B, ?A] \<and> ?B \<in> set (take 2 processed)"
    using run order before by blast
  show ?thesis
    using wf example_chain_acyclic sel mA iA mB iB ex chain allsel any by (intro conjI)
qed

text \<open>
  C3 (as stated) fails on cells that are not selected. In \<open>example_unselected_cell\<close>, \<open>A\<close>
  instantiates \<open>B\<close> through a cell that is not selected, and \<open>A\<close> is processed before
  \<open>B\<close>. In \<open>example_only_top\<close>, a chain of three of which only \<open>A\<close> is selected, \<open>B\<close>
  instantiates \<open>C\<close>, and the pass processes \<open>B\<close>, then \<open>A\<close>, and never \<open>C\<close>.
\<close>

theorem pull_probes_order_counterexample:
  "map (\<lambda>m. (mod_name m, mod_selected m, map (\<lambda>c. (cell_type c, cell_selected c)) (mod_cells m)))
       (design_modules example_unselected_cell)
     = [(backslash # ''A'', True, [(backslash # ''B'', False)]), (backslash # ''B'', True, [])]
   \<and> (case design_module example_unselected_cell (backslash # ''A'') of
         Some m \<Rightarrow> instantiates_any example_unselected_cell m (backslash # ''B'')
       | None \<Rightarrow> False)
   \<and> map_option (\<lambda>r. (fst r, snd (snd r))) (ControlRegistersProbesPass_execute example_unselected_cell)
     = Some (None, [backslash # ''A'', backslash # ''B''])
   \<and> map (\<lambda>m. (mod_name m, mod_selected m, map (\<lambda>c. (cell_type c, cell_selected c)) (mod_cells m)))
       (design_modules example_only_top)
     = [(backslash # ''A'', True, [(backslash # ''B'', True)]),
        (backslash # ''B'', False, [(backslash # ''C'', False)]),
        (backslash # ''C'', False, [(''$dff'', False)])]
   \<and> (case design_module example_only_top (backslash # ''B'') of
         Some m \<Rightarrow> instantiates_any example_only_top m (backslash # ''C'')
       | None \<Rightarrow> False)
   \<and> map_option (\<lambda>r. (fst r, snd (snd r))) (ControlRegistersProbesPass_execute example_only_top)
     = Some (None, [backslash # ''B'', backslash # ''A''])"
  by code_simp

subsection \<open>Recursive hierarchies\<close>

text \<open>
  C7 (as the code has it). In a design whose modules have different names, when a module under
  analysis instantiates itself, directly or not, through selected cells (the only cells that
  lines 158 to 165 and 327 to 335 read), both passes stop with the error of a recursive
  hierarchy, which is a Structural error; the probe puller has then handed no module to a
  worker, and both passes leave the design as it was. The orderer itself (\<^verbatim>\<open>TopoSort\<close>)
  is modelled from the specification.
\<close>

theorem recursive_hierarchy_rejected:
  assumes "wf_design d" and "n \<in> analysed d" and "(n, n) \<in> (inst_rel d)\<^sup>+"
  shows "ControlRegistersProbesPass_execute d = Some (Some Recursive_modules, d, [])
     \<and> FindNextMussPass_execute d start_wire_name module_name = Some (Inl Recursive_modules, d)
     \<and> kind_of Recursive_modules = Structural"
proof -
  from assms(2) have sel: "selected_modules d \<noteq> []" by (rule analysed_nonempty)
  obtain topo where topo: "collect_modules d (selected_modules d, []) = Some topo"
    using collect_modules_terminates by blast
  from orderer_accepts_iff [OF topo assms(1)] assms(2,3) have "\<not> fst (topo_sort topo)" by blast
  with sel topo show ?thesis
    by (simp add: ControlRegistersProbesPass_execute_def FindNextMussPass_execute_def)
qed

theorem recursive_hierarchy_rejected_witness:
  "wf_design example_cycle
   \<and> backslash # ''A'' \<in> analysed example_cycle
   \<and> (backslash # ''A'', backslash # ''A'') \<in> (inst_rel example_cycle)\<^sup>+
   \<and> ControlRegistersProbesPass_execute example_cycle = Some (Some Recursive_modules, example_cycle, [])
   \<and> FindNextMussPass_execute example_cycle ''x'' [] = Some (Inl Recursive_modules, example_cycle)
   \<and> kind_of Recursive_modules = Structural"
proof -
  have wf: "wf_design example_cycle" by code_simp
  have "backslash # ''A'' \<in> mod_name ` set (selected_modules example_cycle)" by code_simp
  then have an: "backslash # ''A'' \<in> analysed example_cycle" by (auto simp: analysed_def)
  have "case design_module example_cycle (backslash # ''B'') of
          Some m \<Rightarrow> instantiates example_cycle m (backslash # ''A'') | None \<Rightarrow> False" by code_simp
  then have ab: "(backslash # ''A'', backslash # ''B'') \<in> inst_rel example_cycle"
    by (auto simp: inst_rel_def split: option.splits)
  have "case design_module example_cycle (backslash # ''A'') of
          Some m \<Rightarrow> instantiates example_cycle m (backslash # ''B'') | None \<Rightarrow> False" by code_simp
  then have ba: "(backslash # ''B'', backslash # ''A'') \<in> inst_rel example_cycle"
    by (auto simp: inst_rel_def split: option.splits)
  from ab ba have cyc: "(backslash # ''A'', backslash # ''A'') \<in> (inst_rel example_cycle)\<^sup>+"
    by (rule trancl_into_trancl [OF r_into_trancl])
  from recursive_hierarchy_rejected [OF wf an cyc, of "''x''" "[]"] wf an cyc show ?thesis by simp
qed

text \<open>
  C7 (as stated) fails on a cycle that goes through a cell that is not selected. In
  \<open>example_half_cycle\<close>, \<open>A\<close> instantiates \<open>B\<close> and \<open>B\<close> instantiates \<open>A\<close>, the
  latter through a cell that is not selected: the probe puller raises no error, processes \<open>B\<close>,
  then \<open>A\<close>, and marks both modules; the tracer returns its sentinel and no error.
\<close>

theorem recursive_hierarchy_counterexample:
  "map (\<lambda>m. (mod_name m, mod_selected m, map (\<lambda>c. (cell_type c, cell_selected c)) (mod_cells m)))
       (design_modules example_half_cycle)
     = [(backslash # ''A'', True, [(backslash # ''B'', True)]),
        (backslash # ''B'', True, [(backslash # ''A'', False)])]
   \<and> (case design_module example_half_cycle (backslash # ''A'') of
         Some m \<Rightarrow> instantiates_any example_half_cycle m (backslash # ''B'')
       | None \<Rightarrow> False)
   \<and> (case design_module example_half_cycle (backslash # ''B'') of
         Some m \<Rightarrow> instantiates_any example_half_cycle m (backslash # ''A'')
       | None \<Rightarrow> False)
   \<and> map_option (\<lambda>r. (fst r, snd (snd r))) (ControlRegistersProbesPass_execute example_half_cycle)
     = Some (None, [backslash # ''B'', backslash # ''A''])
   \<and> map_option (\<lambda>r. map mod_attributes (design_modules (fst (snd r))))
       (ControlRegistersProbesPass_execute example_half_cycle)
     = Some [[control_registers_probes_attribute_name], [control_registers_probes_attribute_name]]
   \<and> map mod_attributes (design_modules example_half_cycle) = [[], []]
   \<and> map_option fst (FindNextMussPass_execute example_half_cycle ''x'' [])
     = Some (Inr (''NONE'', ''NONE''))"
  by code_simp

section \<open>The wires that the probe puller adds\<close>

lemma for_each_state_invariant:
  assumes "for_each_state xs body s = (e, s')" "P s"
    and "\<And>x s e s'. x \<in> set xs \<Longrightarrow> P s \<Longrightarrow> body x s = (e, s') \<Longrightarrow> P s'"
  shows "P s'"
  using assms
proof (induction xs arbitrary: s)
  case Nil
  then show ?case by simp
next
  case (Cons x xs)
  obtain e1 s1 where b: "body x s = (e1, s1)" by (cases "body x s")
  have p1: "P s1" using Cons.prems(3) [of x s e1 s1] Cons.prems(2) b by simp
  show ?case
  proof (cases e1)
    case (Some err)
    with b Cons.prems(1) have "s' = s1" by simp
    with p1 show ?thesis by simp
  next
    case None
    with b Cons.prems(1) have run: "for_each_state xs body s1 = (e, s')" by simp
    show ?thesis using run p1
    proof (rule Cons.IH)
      fix y sa ea sb assume "y \<in> set xs" "P sa" "body y sa = (ea, sb)"
      then show "P sb" using Cons.prems(3) [of y sa ea sb] by simp
    qed
  qed
qed

lemma number_ports_names: "map wire_name (number_ports ws i) = map wire_name ws"
  by (induction ws arbitrary: i) auto

lemma probe_names_only_refl: "probe_names_only m m"
  by (auto simp: probe_names_only_def)

lemma addWire_names:
  assumes "addWire m w = (e, m')"
  shows "mod_name m' = mod_name m" "wire_names m' \<subseteq> insert (wire_name w) (wire_names m)"
  using assms by (auto simp: addWire_def wire_names_def split: if_splits)

lemma subset_insert_step: "A \<subseteq> B \<union> R \<Longrightarrow> C \<subseteq> insert x A \<Longrightarrow> x \<in> R \<Longrightarrow> C \<subseteq> B \<union> R"
  by blast

lemma subset_union_trans: "B \<subseteq> A \<union> R \<Longrightarrow> C \<subseteq> B \<union> R \<Longrightarrow> C \<subseteq> A \<union> R"
  by blast

lemma probe_names_only_add:
  assumes "probe_names_only m0 m" "addWire m (probe_wire (sanitize_wire_name s) wd) = (e, m')"
  shows "probe_names_only m0 m'"
proof -
  have x: "wire_name (probe_wire (sanitize_wire_name s) wd) \<in> range sanitize_wire_name"
    by (simp add: probe_wire_def)
  from assms(1) have a: "mod_name m = mod_name m0"
      "wire_names m \<subseteq> wire_names m0 \<union> range sanitize_wire_name"
    by (simp_all add: probe_names_only_def)
  have "wire_names m' \<subseteq> wire_names m0 \<union> range sanitize_wire_name"
    by (rule subset_insert_step [OF a(2) addWire_names(2) [OF assms(2)] x])
  with addWire_names(1) [OF assms(2)] a(1) show ?thesis by (simp add: probe_names_only_def)
qed

lemma probe_names_only_same_wires:
  assumes "probe_names_only m0 m" "mod_name m' = mod_name m"
    "map wire_name (mod_wires m') = map wire_name (mod_wires m)"
  shows "probe_names_only m0 m'"
  using assms by (simp add: probe_names_only_def wire_names_def)

lemma probe_chunk_names:
  assumes "probe_chunk c ch st = (e, st')" "probe_names_only m0 (fst st)"
  shows "probe_names_only m0 (fst st')"
proof (cases "chunk_wire ch")
  case None
  with assms show ?thesis by (simp add: probe_chunk_def)
next
  case (Some w)
  let ?w = "probe_wire (register_probe_name (cell_index c) (snd st) (chunk_offset ch) (chunk_width ch))
      (chunk_width ch)"
  obtain e1 m1 where a: "addWire (fst st) ?w = (e1, m1)" by (cases "addWire (fst st) ?w")
  from assms(2) a have m1: "probe_names_only m0 m1"
    unfolding register_probe_name_def by (rule probe_names_only_add)
  show ?thesis
  proof (cases e1)
    case (Some err)
    with \<open>chunk_wire ch = Some w\<close> a assms(1) have "fst st' = m1"
      by (auto simp: probe_chunk_def Let_def)
    with m1 show ?thesis by simp
  next
    case None
    with \<open>chunk_wire ch = Some w\<close> a assms(1)
    have "fst st' = fixup_ports (connect m1 (sig_of_wire ?w) [ch])"
      by (auto simp: probe_chunk_def Let_def)
    moreover have "probe_names_only m0 (fixup_ports (connect m1 (sig_of_wire ?w) [ch]))"
      using m1 by (rule probe_names_only_same_wires)
        (simp_all add: fixup_ports_def connect_def number_ports_names)
    ultimately show ?thesis by simp
  qed
qed

lemma thread_probe_names:
  assumes "thread_probe c sw m = (e, m')" "probe_names_only m0 m"
  shows "probe_names_only m0 m'"
proof (cases "ID_regstate_cell_wire \<in> set (wire_attributes sw)")
  case False
  with assms show ?thesis by (simp add: thread_probe_def)
next
  case True
  let ?w = "probe_wire (submodule_probe_name (wire_name sw) (cell_name c) (port_id sw)) (wire_width sw)"
  obtain e1 m1 where a: "addWire m ?w = (e1, m1)" by (cases "addWire m ?w")
  from assms(2) a have m1: "probe_names_only m0 m1"
    unfolding submodule_probe_name_def by (rule probe_names_only_add)
  show ?thesis
  proof (cases e1)
    case (Some err)
    with True a assms(1) have "m' = m1" by (auto simp: thread_probe_def Let_def)
    with m1 show ?thesis by simp
  next
    case None
    with True a assms(1)
    have "m' = fixup_ports (module_setPort m1 (cell_name c) (wire_name sw) (sig_of_wire ?w))"
      by (auto simp: thread_probe_def Let_def)
    moreover have "probe_names_only m0
        (fixup_ports (module_setPort m1 (cell_name c) (wire_name sw) (sig_of_wire ?w)))"
      using m1 by (rule probe_names_only_same_wires)
        (simp_all add: fixup_ports_def module_setPort_def number_ports_names)
    ultimately show ?thesis by simp
  qed
qed

lemma probe_cell_names:
  assumes "probe_cell d c m = (e, m')" "probe_names_only m0 m"
  shows "probe_names_only m0 m'"
proof (cases "ID_regstate_cell \<in> set (cell_attributes c)")
  case True
  show ?thesis
  proof (cases "getPort c ID_Q")
    case (Inl err)
    with True assms show ?thesis by (simp add: probe_cell_def)
  next
    case (Inr port_q)
    obtain e1 st1 where run: "for_each_state port_q (probe_chunk c) (m, 0) = (e1, st1)"
      by (cases "for_each_state port_q (probe_chunk c) (m, 0)")
    have "probe_names_only m0 (fst st1)"
      using run
    proof (rule for_each_state_invariant [where P = "\<lambda>st. probe_names_only m0 (fst st)"])
      show "probe_names_only m0 (fst (m, 0::int))" using assms(2) by simp
    next
      fix ch st ea st'
      assume "probe_names_only m0 (fst st)" "probe_chunk c ch st = (ea, st')"
      then show "probe_names_only m0 (fst st')" using probe_chunk_names by blast
    qed
    moreover from True Inr run assms(1) have "m' = fst st1" by (simp add: probe_cell_def)
    ultimately show ?thesis by simp
  qed
next
  case False
  show ?thesis
  proof (cases "design_module d (cell_type c)")
    case None
    with False assms show ?thesis by (simp add: probe_cell_def)
  next
    case (Some sub)
    with False assms(1) have "for_each_state (mod_wires sub) (thread_probe c) m = (e, m')"
      by (simp add: probe_cell_def)
    then show ?thesis using assms(2)
    proof (rule for_each_state_invariant [where P = "probe_names_only m0"])
      fix sw ma ea mb
      assume "probe_names_only m0 ma" "thread_probe c sw ma = (ea, mb)"
      then show "probe_names_only m0 mb" using thread_probe_names by blast
    qed
  qed
qed

lemma create_probes_names:
  assumes "create_control_registers_probes d m = (e, m')"
  shows "probe_names_only m m'"
proof (cases "mod_processes m \<noteq> []")
  case True
  with assms show ?thesis by (simp add: create_control_registers_probes_def probe_names_only_refl)
next
  case False
  obtain e1 m1 where run: "for_each_state (mod_cells m) (probe_cell d) m = (e1, m1)"
    by (cases "for_each_state (mod_cells m) (probe_cell d) m")
  have m1: "probe_names_only m m1"
    using run probe_names_only_refl
  proof (rule for_each_state_invariant [where P = "probe_names_only m"])
    fix c ma ea mb
    assume "probe_names_only m ma" "probe_cell d c ma = (ea, mb)"
    then show "probe_names_only m mb" using probe_cell_names by blast
  qed
  from False run assms have "m' = m1 \<or> m' = set_bool_attribute m1 control_registers_probes_attribute_name"
    by (cases e1) (auto simp: create_control_registers_probes_def)
  moreover have "probe_names_only m (set_bool_attribute m1 control_registers_probes_attribute_name)"
    using m1 by (rule probe_names_only_same_wires) (simp_all add: set_bool_attribute_def)
  ultimately show ?thesis using m1 by auto
qed

lemma replace_module_names:
  assumes "wf_design d" "design_module d n = Some m" "probe_names_only m m'"
  shows "list_all2 probe_names_only (design_modules d) (design_modules (replace_module d m'))"
    and "wf_design (replace_module d m')"
proof -
  from assms(3) have nm: "mod_name m' = mod_name m" by (simp add: probe_names_only_def)
  from assms(2) have m: "m \<in> set (design_modules d)" by (simp add: design_module_Some)
  have same: "\<And>x. x \<in> set (design_modules d) \<Longrightarrow> mod_name x = mod_name m \<Longrightarrow> x = m"
  proof -
    fix x assume "x \<in> set (design_modules d)" "mod_name x = mod_name m"
    with wf_design_module [OF assms(1)] m show "x = m" by (metis option.inject)
  qed
  have "\<And>x. x \<in> set (design_modules d) \<Longrightarrow>
      probe_names_only x (if mod_name x = mod_name m' then m' else x)"
    using nm same assms(3) by (auto simp: probe_names_only_refl)
  then show "list_all2 probe_names_only (design_modules d) (design_modules (replace_module d m'))"
    unfolding replace_module_def list_all2_conv_all_nth by simp
  have "map mod_name (design_modules (replace_module d m')) = map mod_name (design_modules d)"
    unfolding replace_module_def using nm by (auto simp: comp_def)
  with assms(1) show "wf_design (replace_module d m')" by (simp add: wf_design_def)
qed

lemma probe_names_only_trans:
  assumes "probe_names_only a b" "probe_names_only b c"
  shows "probe_names_only a c"
proof -
  from assms have "wire_names b \<subseteq> wire_names a \<union> range sanitize_wire_name"
    "wire_names c \<subseteq> wire_names b \<union> range sanitize_wire_name"
    by (simp_all add: probe_names_only_def)
  then have "wire_names c \<subseteq> wire_names a \<union> range sanitize_wire_name"
    by (rule subset_union_trans)
  with assms show ?thesis by (simp add: probe_names_only_def)
qed

lemma list_all2_probe_names_trans:
  assumes "list_all2 probe_names_only xs ys" "list_all2 probe_names_only ys zs"
  shows "list_all2 probe_names_only xs zs"
  using assms probe_names_only_trans by (rule list_all2_trans [rotated])

lemma worker_names:
  assumes "ControlRegistersProbesWorker n st = (e, st')" "wf_design (fst st)"
  shows "list_all2 probe_names_only (design_modules (fst st)) (design_modules (fst st'))
     \<and> wf_design (fst st')"
proof (cases "design_module (fst st) n")
  case None
  with assms have "fst st' = fst st" by (auto simp: ControlRegistersProbesWorker_def)
  with assms(2) show ?thesis by (simp add: list_all2_refl probe_names_only_refl)
next
  case (Some m)
  obtain e1 m' where c: "create_control_registers_probes (fst st) m = (e1, m')"
    by (cases "create_control_registers_probes (fst st) m")
  with Some assms(1) have "fst st' = replace_module (fst st) m'"
    by (auto simp: ControlRegistersProbesWorker_def)
  with replace_module_names [OF assms(2) Some create_probes_names [OF c]] show ?thesis by simp
qed

lemma pass_names:
  assumes "wf_design d" "ControlRegistersProbesPass_execute d = Some (err, d', processed)"
  shows "list_all2 probe_names_only (design_modules d) (design_modules d')"
  using assms(2)
proof (cases rule: pull_execute_cases)
  case empty
  then show ?thesis by (simp add: list_all2_refl probe_names_only_refl)
next
  case (recursive topo)
  then show ?thesis by (simp add: list_all2_refl probe_names_only_refl)
next
  case (sorted topo)
  let ?P = "\<lambda>st. list_all2 probe_names_only (design_modules d) (design_modules (fst st))
      \<and> wf_design (fst st)"
  have "?P (d', processed)"
    using sorted(4)
  proof (rule for_each_state_invariant [where P = ?P])
    show "?P (d, [])" using assms(1) by (simp add: list_all2_refl probe_names_only_refl)
  next
    fix n st e st'
    assume p: "?P st" and w: "ControlRegistersProbesWorker n st = (e, st')"
    from worker_names [OF w] p show "?P st'"
      by (blast intro: list_all2_probe_names_trans)
  qed
  then show ?thesis by simp
qed

subsection \<open>The names of the wires that the worker adds\<close>

lemma take_append_take: "take j xs = take (min j (length xs)) (xs @ ys)"
  by (cases "j \<le> length xs") (simp_all add: min_def)

lemma grown_by_stay: "grown_by old old (Some err) added"
  unfolding grown_by_def by (simp add: exI [of _ 0])

lemma grown_by_none: "grown_by old old None []"
  unfolding grown_by_def by simp

lemma grown_by_stop:
  assumes "grown_by a b (Some err) xs"
  shows "grown_by a b (Some err) (xs @ ys)"
proof -
  from assms obtain j where "b = a @ take j xs" by (auto simp: grown_by_def)
  then have "b = a @ take (min j (length xs)) (xs @ ys)"
    using take_append_take [of j xs ys] by simp
  then show ?thesis unfolding grown_by_def by blast
qed

lemma grown_by_trans:
  assumes "grown_by a b None xs" "grown_by b c e ys"
  shows "grown_by a c e (xs @ ys)"
proof -
  from assms(1) have b: "b = a @ xs" by (simp add: grown_by_def)
  from assms(2) obtain j where j: "c = b @ take j ys" and full: "e = None \<longrightarrow> c = b @ ys"
    unfolding grown_by_def by blast
  from j b have "c = a @ take (length xs + j) (xs @ ys)" by simp
  moreover from full b have "e = None \<longrightarrow> c = a @ xs @ ys" by simp
  ultimately show ?thesis unfolding grown_by_def by blast
qed

lemma for_each_state_grown:
  assumes "for_each_state xs body s = (e, s')"
    and "\<And>x s e s'. x \<in> set xs \<Longrightarrow> body x s = (e, s') \<Longrightarrow> grown_by (f s) (f s') e (g x)"
  shows "grown_by (f s) (f s') e (concat (map g xs))"
  using assms
proof (induction xs arbitrary: s)
  case Nil
  then show ?case by (simp add: grown_by_none)
next
  case (Cons x xs)
  obtain e1 s1 where b: "body x s = (e1, s1)" by (cases "body x s")
  have g1: "grown_by (f s) (f s1) e1 (g x)" using Cons.prems(2) [of x s e1 s1] b by simp
  show ?case
  proof (cases e1)
    case (Some err)
    with b Cons.prems(1) have "s' = s1" "e = Some err" by simp_all
    with g1 Some have "grown_by (f s) (f s') (Some err) (g x)" by simp
    then have "grown_by (f s) (f s') (Some err) (g x @ concat (map g xs))" by (rule grown_by_stop)
    with \<open>e = Some err\<close> show ?thesis by simp
  next
    case None
    with b Cons.prems(1) have run: "for_each_state xs body s1 = (e, s')" by simp
    have "grown_by (f s1) (f s') e (concat (map g xs))"
      using run
    proof (rule Cons.IH)
      fix y sa ea sb assume "y \<in> set xs" "body y sa = (ea, sb)"
      then show "grown_by (f sa) (f sb) ea (g y)" using Cons.prems(2) [of y sa ea sb] by simp
    qed
    with g1 None have "grown_by (f s) (f s') e (g x @ concat (map g xs))"
      by (auto intro: grown_by_trans)
    then show ?thesis by simp
  qed
qed

lemma addWire_grown:
  assumes "addWire m w = (e, m')"
  shows "grown_by (map wire_name (mod_wires m)) (map wire_name (mod_wires m')) e [wire_name w]"
proof (cases e)
  case None
  with assms have "m' = m\<lparr>mod_wires := mod_wires m @ [w]\<rparr>" by (auto simp: addWire_def split: if_splits)
  with None show ?thesis by (simp add: grown_by_def exI [of _ 1])
next
  case (Some err)
  with assms have "m' = m" by (auto simp: addWire_def split: if_splits)
  with Some show ?thesis by (simp add: grown_by_stay)
qed

lemma thread_probe_grown:
  assumes "thread_probe c sw m = (e, m')"
  shows "grown_by (map wire_name (mod_wires m)) (map wire_name (mod_wires m')) e
     (if ID_regstate_cell_wire \<in> set (wire_attributes sw)
      then [submodule_probe_name (wire_name sw) (cell_name c) (port_id sw)] else [])"
proof (cases "ID_regstate_cell_wire \<in> set (wire_attributes sw)")
  case False
  with assms show ?thesis by (simp add: thread_probe_def grown_by_none)
next
  case True
  let ?w = "probe_wire (submodule_probe_name (wire_name sw) (cell_name c) (port_id sw)) (wire_width sw)"
  obtain e1 m1 where a: "addWire m ?w = (e1, m1)" by (cases "addWire m ?w")
  from addWire_grown [OF a]
  have g: "grown_by (map wire_name (mod_wires m)) (map wire_name (mod_wires m1)) e1
      [submodule_probe_name (wire_name sw) (cell_name c) (port_id sw)]"
    by (simp add: probe_wire_def)
  show ?thesis
  proof (cases e1)
    case (Some err)
    with True a assms have "m' = m1" "e = e1" by (auto simp: thread_probe_def Let_def)
    with g True show ?thesis by simp
  next
    case None
    with True a assms
    have "m' = fixup_ports (module_setPort m1 (cell_name c) (wire_name sw) (sig_of_wire ?w))" "e = e1"
      by (auto simp: thread_probe_def Let_def)
    then have "map wire_name (mod_wires m') = map wire_name (mod_wires m1)" "e = e1"
      by (simp_all add: fixup_ports_def module_setPort_def number_ports_names)
    with g True show ?thesis by simp
  qed
qed

lemma concat_map_if: "concat (map (\<lambda>x. if P x then [f x] else []) xs) = map f (filter P xs)"
  by (induction xs) auto

lemma thread_probes_grown:
  assumes "for_each_state (mod_wires sub) (thread_probe c) m = (e, m')"
  shows "grown_by (map wire_name (mod_wires m)) (map wire_name (mod_wires m')) e
     (threaded_probe_names c sub)"
proof -
  have "grown_by (map wire_name (mod_wires m)) (map wire_name (mod_wires m')) e
      (concat (map (\<lambda>sw. if ID_regstate_cell_wire \<in> set (wire_attributes sw)
      then [submodule_probe_name (wire_name sw) (cell_name c) (port_id sw)] else []) (mod_wires sub)))"
    using assms
  proof (rule for_each_state_grown [where f = "\<lambda>m. map wire_name (mod_wires m)"])
    fix sw ma ea mb assume "thread_probe c sw ma = (ea, mb)"
    then show "grown_by (map wire_name (mod_wires ma)) (map wire_name (mod_wires mb)) ea
        (if ID_regstate_cell_wire \<in> set (wire_attributes sw)
         then [submodule_probe_name (wire_name sw) (cell_name c) (port_id sw)] else [])"
      by (rule thread_probe_grown)
  qed
  then show ?thesis by (simp add: threaded_probe_names_def concat_map_if)
qed

lemma probe_chunks_grown:
  assumes "for_each_state chs (probe_chunk c) (m, int n) = (e, st')"
  shows "grown_by (map wire_name (mod_wires m)) (map wire_name (mod_wires (fst st'))) e
     (chunk_probe_names c n (wire_chunks chs))"
  using assms
proof (induction chs arbitrary: m n)
  case Nil
  then show ?case by (auto simp: wire_chunks_def chunk_probe_names_def grown_by_none)
next
  case (Cons ch chs)
  show ?case
  proof (cases "chunk_wire ch")
    case None
    then have "probe_chunk c ch (m, int n) = (None, m, int n)" by (simp add: probe_chunk_def)
    with Cons.prems have "for_each_state chs (probe_chunk c) (m, int n) = (e, st')" by simp
    from Cons.IH [OF this] None show ?thesis by (simp add: wire_chunks_def)
  next
    case (Some w)
    let ?name = "register_probe_name (cell_index c) (int n) (chunk_offset ch) (chunk_width ch)"
    let ?w = "probe_wire ?name (chunk_width ch)"
    have names: "chunk_probe_names c n (wire_chunks (ch # chs))
        = [?name] @ chunk_probe_names c (Suc n) (wire_chunks chs)"
      using Some by (simp add: wire_chunks_def chunk_probe_names_def)
    obtain e1 m1 where a: "addWire m ?w = (e1, m1)" by (cases "addWire m ?w")
    from addWire_grown [OF a]
    have g: "grown_by (map wire_name (mod_wires m)) (map wire_name (mod_wires m1)) e1 [?name]"
      by (simp add: probe_wire_def)
    show ?thesis
    proof (cases e1)
      case (Some err)
      with \<open>chunk_wire ch = Some w\<close> a
      have "probe_chunk c ch (m, int n) = (Some err, m1, int n)" by (simp add: probe_chunk_def Let_def)
      with Cons.prems have "fst st' = m1" "e = Some err" by auto
      with g Some have "grown_by (map wire_name (mod_wires m)) (map wire_name (mod_wires (fst st')))
          (Some err) [?name]" by simp
      then have "grown_by (map wire_name (mod_wires m)) (map wire_name (mod_wires (fst st')))
          (Some err) ([?name] @ chunk_probe_names c (Suc n) (wire_chunks chs))" by (rule grown_by_stop)
      with names \<open>e = Some err\<close> show ?thesis by simp
    next
      case None
      let ?m2 = "fixup_ports (connect m1 (sig_of_wire ?w) [ch])"
      from None \<open>chunk_wire ch = Some w\<close> a
      have "probe_chunk c ch (m, int n) = (None, ?m2, int (Suc n))"
        by (simp add: probe_chunk_def Let_def add.commute)
      with Cons.prems have "for_each_state chs (probe_chunk c) (?m2, int (Suc n)) = (e, st')"
        by simp
      from Cons.IH [OF this]
      have "grown_by (map wire_name (mod_wires ?m2)) (map wire_name (mod_wires (fst st'))) e
          (chunk_probe_names c (Suc n) (wire_chunks chs))" .
      moreover have "map wire_name (mod_wires ?m2) = map wire_name (mod_wires m1)"
        by (simp add: fixup_ports_def connect_def number_ports_names)
      ultimately have "grown_by (map wire_name (mod_wires m1)) (map wire_name (mod_wires (fst st'))) e
          (chunk_probe_names c (Suc n) (wire_chunks chs))" by simp
      with g None have "grown_by (map wire_name (mod_wires m)) (map wire_name (mod_wires (fst st'))) e
          ([?name] @ chunk_probe_names c (Suc n) (wire_chunks chs))"
        by (intro grown_by_trans [where b = "map wire_name (mod_wires m1)"]) simp_all
      with names show ?thesis by simp
    qed
  qed
qed

lemma probe_cell_grown:
  assumes "probe_cell d c m = (e, m')"
  shows "grown_by (map wire_name (mod_wires m)) (map wire_name (mod_wires m')) e (cell_probe_names d c)"
proof (cases "ID_regstate_cell \<in> set (cell_attributes c)")
  case True
  show ?thesis
  proof (cases "getPort c ID_Q")
    case (Inl err)
    with True assms have "m' = m" "e = Some err" by (simp_all add: probe_cell_def)
    then show ?thesis by (simp add: grown_by_stay)
  next
    case (Inr port_q)
    obtain e1 st1 where run: "for_each_state port_q (probe_chunk c) (m, int 0) = (e1, st1)"
      by (cases "for_each_state port_q (probe_chunk c) (m, int 0)")
    from True Inr run assms have "m' = fst st1" "e = e1" by (simp_all add: probe_cell_def)
    with probe_chunks_grown [OF run] True Inr show ?thesis
      by (simp add: cell_probe_names_def register_probe_names_def)
  qed
next
  case False
  show ?thesis
  proof (cases "design_module d (cell_type c)")
    case None
    with False assms have "m' = m" "e = None" by (simp_all add: probe_cell_def)
    with False None show ?thesis by (simp add: cell_probe_names_def grown_by_none)
  next
    case (Some sub)
    with False assms have "for_each_state (mod_wires sub) (thread_probe c) m = (e, m')"
      by (simp add: probe_cell_def)
    from thread_probes_grown [OF this] False Some show ?thesis by (simp add: cell_probe_names_def)
  qed
qed

lemma create_probes_grown:
  assumes "create_control_registers_probes d m = (e, m')"
  shows "grown_by (map wire_name (mod_wires m)) (map wire_name (mod_wires m')) e (module_probe_names d m)"
proof (cases "mod_processes m \<noteq> []")
  case True
  with assms have "m' = m" "e = Some Unexpected_process"
    by (simp_all add: create_control_registers_probes_def)
  then show ?thesis by (simp add: grown_by_stay)
next
  case False
  obtain e1 m1 where run: "for_each_state (mod_cells m) (probe_cell d) m = (e1, m1)"
    by (cases "for_each_state (mod_cells m) (probe_cell d) m")
  have g: "grown_by (map wire_name (mod_wires m)) (map wire_name (mod_wires m1)) e1
      (concat (map (cell_probe_names d) (mod_cells m)))"
    using run
  proof (rule for_each_state_grown [where f = "\<lambda>m. map wire_name (mod_wires m)"])
    fix c ma ea mb assume "probe_cell d c ma = (ea, mb)"
    then show "grown_by (map wire_name (mod_wires ma)) (map wire_name (mod_wires mb)) ea
        (cell_probe_names d c)" by (rule probe_cell_grown)
  qed
  from False run assms have "e = e1"
      "m' = m1 \<or> m' = set_bool_attribute m1 control_registers_probes_attribute_name"
    by (cases e1; auto simp: create_control_registers_probes_def)+
  then have "e = e1" "map wire_name (mod_wires m') = map wire_name (mod_wires m1)"
    by (auto simp: set_bool_attribute_def)
  with g show ?thesis by (simp add: module_probe_names_def)
qed


lemma module_probe_names_sanitized:
  assumes "n \<in> set (module_probe_names d m)"
  shows "n \<in> range sanitize_wire_name"
proof -
  from assms obtain c where c: "c \<in> set (mod_cells m)" "n \<in> set (cell_probe_names d c)"
    by (auto simp: module_probe_names_def)
  show ?thesis
  proof (cases "ID_regstate_cell \<in> set (cell_attributes c)")
    case True
    with c(2) show ?thesis
      by (auto simp: cell_probe_names_def register_probe_names_def chunk_probe_names_def
          register_probe_name_def split: sum.splits)
  next
    case False
    with c(2) show ?thesis
      by (auto simp: cell_probe_names_def threaded_probe_names_def submodule_probe_name_def
          split: option.splits)
  qed
qed

text \<open>
  The worker's names in the whole pass. Replacing one module leaves the others as they are; a
  module is processed after the modules that its cells instantiate, so that what the worker
  reads in them is what the pass leaves in them.
\<close>

lemma find_replace_other:
  assumes "k \<noteq> n" "mod_name m' = n"
  shows "find (\<lambda>x. mod_name x = k) (map (\<lambda>x. if mod_name x = n then m' else x) ms)
     = find (\<lambda>x. mod_name x = k) ms"
  using assms by (induction ms) auto

lemma find_replace_same:
  assumes "n \<in> mod_name ` set ms" "mod_name m' = n"
  shows "find (\<lambda>x. mod_name x = n) (map (\<lambda>x. if mod_name x = n then m' else x) ms) = Some m'"
  using assms by (induction ms) auto

lemma replace_module_lookup:
  assumes "design_module d n = Some m" "mod_name m' = n"
  shows "design_module (replace_module d m') k = (if k = n then Some m' else design_module d k)"
proof (cases "k = n")
  case True
  from assms(1) have "n \<in> mod_name ` set (design_modules d)"
    by (auto dest: design_module_Some)
  from find_replace_same [OF this assms(2)] True assms(2) show ?thesis
    by (simp add: design_module_def replace_module_def)
next
  case False
  from find_replace_other [OF False assms(2)] False assms(2) show ?thesis
    by (simp add: design_module_def replace_module_def)
qed

lemma design_module_None_iff:
  "design_module d n = None \<longleftrightarrow> n \<notin> set (map mod_name (design_modules d))"
  by (auto simp: design_module_def find_None_iff)

lemma replace_module_mod_names:
  assumes "design_module d n = Some m" "mod_name m' = n"
  shows "map mod_name (design_modules (replace_module d m')) = map mod_name (design_modules d)"
  using assms(2) by (auto simp: replace_module_def)

lemma module_probe_names_cong:
  assumes "\<And>c. c \<in> set (mod_cells m) \<Longrightarrow> design_module d (cell_type c) = design_module d' (cell_type c)"
  shows "module_probe_names d m = module_probe_names d' m"
proof -
  have "\<And>c. c \<in> set (mod_cells m) \<Longrightarrow> cell_probe_names d c = cell_probe_names d' c"
    using assms by (simp add: cell_probe_names_def)
  then have "map (cell_probe_names d) (mod_cells m) = map (cell_probe_names d') (mod_cells m)"
    by (rule map_ext [rule_format]) simp
  then show ?thesis by (simp only: module_probe_names_def)
qed

lemma workers_exact:
  assumes "for_each_state xs ControlRegistersProbesWorker (ds, log) = (None, d', log')"
    and "wf_design ds" and "distinct xs"
    and "\<forall>i < length xs. \<forall>m c. design_module ds (xs ! i) = Some m \<and> c \<in> set (mod_cells m)
            \<and> design_module ds (cell_type c) \<noteq> None \<longrightarrow> cell_type c \<notin> set (drop i xs)"
  shows "(\<forall>n \<in> set xs. \<forall>m. design_module ds n = Some m \<longrightarrow>
            (\<exists>m'. design_module d' n = Some m'
               \<and> map wire_name (mod_wires m') = map wire_name (mod_wires m) @ module_probe_names d' m))
     \<and> (\<forall>k. k \<notin> set xs \<longrightarrow> design_module d' k = design_module ds k)
     \<and> map mod_name (design_modules d') = map mod_name (design_modules ds)"
  using assms
proof (induction xs arbitrary: ds log)
  case Nil
  then show ?case by simp
next
  case (Cons x rest)
  note run = Cons.prems(1) and wf = Cons.prems(2) and dist = Cons.prems(3) and ord = Cons.prems(4)
  obtain m where m: "design_module ds x = Some m"
  proof (cases "design_module ds x")
    case None
    then have "ControlRegistersProbesWorker x (ds, log) = (Some Null_module, ds, log @ [x])"
      by (simp add: ControlRegistersProbesWorker_def)
    with run show ?thesis by simp
  qed simp
  obtain e1 m1 where cr: "create_control_registers_probes ds m = (e1, m1)"
    by (cases "create_control_registers_probes ds m")
  let ?ds1 = "replace_module ds m1"
  from m cr have w: "ControlRegistersProbesWorker x (ds, log) = (e1, ?ds1, log @ [x])"
    by (simp add: ControlRegistersProbesWorker_def)
  have e1: "e1 = None"
  proof (cases e1)
    case (Some err)
    with w run show ?thesis by simp
  qed simp
  with w run have rest: "for_each_state rest ControlRegistersProbesWorker (?ds1, log @ [x]) = (None, d', log')"
    by simp
  from m have xm: "mod_name m = x" by (rule design_module_name)
  from create_probes_names [OF cr] have pn: "probe_names_only m m1" .
  then have m1x: "mod_name m1 = x" using xm by (simp add: probe_names_only_def)
  note look = replace_module_lookup [OF m m1x]
  from replace_module_names(2) [OF wf m pn] have wf1: "wf_design ?ds1" .
  have names1: "map mod_name (design_modules ?ds1) = map mod_name (design_modules ds)"
    using m m1x by (rule replace_module_mod_names)
  from create_probes_grown [OF cr] e1
  have grown: "map wire_name (mod_wires m1) = map wire_name (mod_wires m) @ module_probe_names ds m"
    by (simp add: grown_by_def)
  from dist have xrest: "x \<notin> set rest" and drest: "distinct rest" by simp_all
  have ord1: "\<forall>i < length rest. \<forall>m2 c. design_module ?ds1 (rest ! i) = Some m2 \<and> c \<in> set (mod_cells m2)
            \<and> design_module ?ds1 (cell_type c) \<noteq> None \<longrightarrow> cell_type c \<notin> set (drop i rest)"
  proof (intro allI impI)
    fix i m2 c
    assume i: "i < length rest"
      and h: "design_module ?ds1 (rest ! i) = Some m2 \<and> c \<in> set (mod_cells m2)
            \<and> design_module ?ds1 (cell_type c) \<noteq> None"
    from i xrest have "rest ! i \<noteq> x" by (metis nth_mem)
    with h look have a: "design_module ds ((x # rest) ! Suc i) = Some m2" by simp
    from h look m have b: "design_module ds (cell_type c) \<noteq> None" by (auto split: if_splits)
    from i have "Suc i < length (x # rest)" by simp
    with ord a b h have "cell_type c \<notin> set (drop (Suc i) (x # rest))" by blast
    then show "cell_type c \<notin> set (drop i rest)" by simp
  qed
  note IH = Cons.IH [OF rest wf1 drest ord1]
  from IH have ih1: "\<forall>n \<in> set rest. \<forall>m. design_module ?ds1 n = Some m \<longrightarrow>
            (\<exists>m'. design_module d' n = Some m'
               \<and> map wire_name (mod_wires m') = map wire_name (mod_wires m) @ module_probe_names d' m)"
    by (rule conjunct1)
  from IH have ih2: "\<forall>k. k \<notin> set rest \<longrightarrow> design_module d' k = design_module ?ds1 k"
    by (rule conjunct1 [OF conjunct2])
  from IH have ih3: "map mod_name (design_modules d') = map mod_name (design_modules ?ds1)"
    by (rule conjunct2 [OF conjunct2])
  have same: "module_probe_names ds m = module_probe_names d' m"
  proof (rule module_probe_names_cong)
    fix c assume c: "c \<in> set (mod_cells m)"
    show "design_module ds (cell_type c) = design_module d' (cell_type c)"
    proof (cases "design_module ds (cell_type c)")
      case None
      then have "cell_type c \<notin> set (map mod_name (design_modules ds))"
        by (simp add: design_module_None_iff)
      with ih3 names1 have "cell_type c \<notin> set (map mod_name (design_modules d'))" by simp
      then have "design_module d' (cell_type c) = None" by (simp add: design_module_None_iff)
      with None show ?thesis by simp
    next
      case (Some sub)
      have "0 < length (x # rest)" by simp
      with ord have "design_module ds ((x # rest) ! 0) = Some m \<and> c \<in> set (mod_cells m)
            \<and> design_module ds (cell_type c) \<noteq> None \<longrightarrow> cell_type c \<notin> set (drop 0 (x # rest))"
        by blast
      with m c Some have out: "cell_type c \<noteq> x" "cell_type c \<notin> set rest" by auto
      with ih2 look show ?thesis by simp
    qed
  qed
  have 1: "\<forall>n \<in> set (x # rest). \<forall>mm. design_module ds n = Some mm \<longrightarrow>
            (\<exists>m'. design_module d' n = Some m'
               \<and> map wire_name (mod_wires m') = map wire_name (mod_wires mm) @ module_probe_names d' mm)"
  proof (intro ballI allI impI)
    fix n mm assume n: "n \<in> set (x # rest)" and mm: "design_module ds n = Some mm"
    show "\<exists>m'. design_module d' n = Some m'
               \<and> map wire_name (mod_wires m') = map wire_name (mod_wires mm) @ module_probe_names d' mm"
    proof (cases "n = x")
      case True
      with mm m have "mm = m" by simp
      moreover from ih2 xrest look have "design_module d' x = Some m1" by simp
      ultimately show ?thesis using True grown same by simp
    next
      case False
      with n have nr: "n \<in> set rest" by simp
      from False look mm have "design_module ?ds1 n = Some mm" by simp
      with ih1 nr show ?thesis by blast
    qed
  qed
  have 2: "\<forall>k. k \<notin> set (x # rest) \<longrightarrow> design_module d' k = design_module ds k"
    using ih2 look by simp
  from ih3 names1 have 3: "map mod_name (design_modules d') = map mod_name (design_modules ds)"
    by simp
  from 1 2 3 show ?case by (intro conjI)
qed

lemma pass_exact:
  assumes wf: "wf_design d"
    and run: "ControlRegistersProbesPass_execute d = Some (None, d', processed)"
    and allsel: "list_all (\<lambda>m. list_all cell_selected (mod_cells m)) (design_modules d)"
    and n: "n \<in> set processed" and m: "design_module d n = Some m"
  shows "\<exists>m'. design_module d' n = Some m'
     \<and> map wire_name (mod_wires m') = map wire_name (mod_wires m) @ module_probe_names d' m"
  using run
proof (cases rule: pull_execute_cases)
  case empty
  then show ?thesis by simp
next
  case (recursive topo)
  then show ?thesis by simp
next
  case (sorted topo)
  obtain out where out: "topo_sort topo = (True, out)"
    using sorted(3) by (cases "topo_sort topo") auto
  note g = collect_modules_graph [OF sorted(2) wf]
  from topo_sort_sound [OF out] g(3)
  have ord: "topo_ordered topo out" and nodes: "set out = analysed d" and dist: "distinct out"
    using g(1) by simp_all
  from sorted(4) out
  have loop: "for_each_state out ControlRegistersProbesWorker (d, []) = (None, d', processed)"
    by simp
  from workers_log [OF this] have p: "processed = out" by auto
  have order: "\<forall>i < length out. \<forall>m c. design_module d (out ! i) = Some m \<and> c \<in> set (mod_cells m)
            \<and> design_module d (cell_type c) \<noteq> None \<longrightarrow> cell_type c \<notin> set (drop i out)"
  proof (intro allI impI)
    fix i mi c
    assume i: "i < length out"
      and h: "design_module d (out ! i) = Some mi \<and> c \<in> set (mod_cells mi)
            \<and> design_module d (cell_type c) \<noteq> None"
    then have "mi \<in> set (design_modules d)" by (auto dest: design_module_Some)
    with allsel have "list_all cell_selected (mod_cells mi)" by (simp add: list_all_iff)
    with h have "c \<in> set (selected_cells mi)" by (simp add: selected_cells_def list_all_iff)
    with h have "instantiates d mi (cell_type c)" by (auto simp: instantiates_def list_ex_iff)
    with h have "(cell_type c, out ! i) \<in> inst_rel d" by (auto simp: inst_rel_def)
    moreover from i nodes have "out ! i \<in> analysed d" by (metis nth_mem)
    ultimately have "(cell_type c, out ! i) \<in> topo_edges topo" using g(2) by simp
    then have "cell_type c \<in> set (topo_deps topo (out ! i))" by (simp add: topo_edges_def)
    with ord i have "cell_type c \<in> set (take i out)" by (auto simp: topo_ordered_def)
    moreover from dist have "distinct (take i out @ drop i out)" by simp
    then have "set (take i out) \<inter> set (drop i out) = {}" by (simp only: distinct_append)
    ultimately show "cell_type c \<notin> set (drop i out)" by blast
  qed
  from workers_exact [OF loop wf dist order] n m p show ?thesis by blast
qed

text \<open>
  C4 (as the code has it). The name of a register probe is the function
  \<open>register_probe_name\<close> of the cell's identifier index, the chunk number, the offset and the
  width, and sanitizing changes nothing in it but the backslash put in front. Every sanitized
  name starts with a backslash, the marker of a public RTLIL identifier, and has none of the six
  stripped characters after it. In a design whose modules have different names, the pass leaves
  every module with its name and with no other new wire than wires named by
  \<open>sanitize_wire_name\<close>. The worker appends to the wires of a module the wires named by
  \<open>module_probe_names\<close>, in that order: all of them when it ends without error, and the first
  of them up to the failure otherwise. These are, for each tracked register, the names made of
  the cell's identifier index, the rank of the chunk among the chunks of \<open>Q\<close> that are backed
  by a wire, the chunk's offset and its end, and, for each instance of a module, the names made
  of the name of a probe wire of that module, the name of the instantiating cell and the port
  number of that wire; each of them is a backslash followed by none of the six characters. After
  a run of the pass without error on a design whose cells are all selected, every processed
  module has its former wires followed by the wires of these names, the instantiated modules
  being read in the design as the pass leaves it.
\<close>

theorem probe_name_sanitized:
  "register_probe_name index chunk_id offset width
      = backslash # register_probe_raw_name index chunk_id offset width
   \<and> hd (sanitize_wire_name s) = backslash
   \<and> set (tl (sanitize_wire_name s)) \<inter> Collect is_stripped = {}
   \<and> (wf_design d \<and> ControlRegistersProbesPass_execute d = Some (err, d', processed) \<longrightarrow>
        list_all2 probe_names_only (design_modules d) (design_modules d'))
   \<and> (create_control_registers_probes d m = (e, m') \<longrightarrow>
        (\<exists>j. map wire_name (mod_wires m')
               = map wire_name (mod_wires m) @ take j (module_probe_names d m))
        \<and> (e = None \<longrightarrow>
             map wire_name (mod_wires m') = map wire_name (mod_wires m) @ module_probe_names d m))
   \<and> (n \<in> set (module_probe_names d m) \<longrightarrow>
        hd n = backslash \<and> set (tl n) \<inter> Collect is_stripped = {})
   \<and> (wf_design d \<and> ControlRegistersProbesPass_execute d = Some (None, d', processed)
        \<and> list_all (\<lambda>m. list_all cell_selected (mod_cells m)) (design_modules d)
        \<and> n0 \<in> set processed \<and> design_module d n0 = Some m0 \<longrightarrow>
        (\<exists>m1. design_module d' n0 = Some m1
           \<and> map wire_name (mod_wires m1) = map wire_name (mod_wires m0) @ module_probe_names d' m0))"
proof -
  have 7: "wf_design d \<and> ControlRegistersProbesPass_execute d = Some (None, d', processed)
        \<and> list_all (\<lambda>m. list_all cell_selected (mod_cells m)) (design_modules d)
        \<and> n0 \<in> set processed \<and> design_module d n0 = Some m0 \<longrightarrow>
        (\<exists>m1. design_module d' n0 = Some m1
           \<and> map wire_name (mod_wires m1) = map wire_name (mod_wires m0) @ module_probe_names d' m0)"
    using pass_exact [of d d' processed n0 m0] by blast
  have 5: "create_control_registers_probes d m = (e, m') \<longrightarrow>
        (\<exists>j. map wire_name (mod_wires m')
               = map wire_name (mod_wires m) @ take j (module_probe_names d m))
        \<and> (e = None \<longrightarrow>
             map wire_name (mod_wires m') = map wire_name (mod_wires m) @ module_probe_names d m)"
    using create_probes_grown [of d m e m'] unfolding grown_by_def by blast
  have 6: "n \<in> set (module_probe_names d m) \<longrightarrow>
        hd n = backslash \<and> set (tl n) \<inter> Collect is_stripped = {}"
  proof
    assume "n \<in> set (module_probe_names d m)"
    then obtain s' where "n = sanitize_wire_name s'"
      using module_probe_names_sanitized by blast
    with sanitized_shape [of 0 0 0 0 s']
    show "hd n = backslash \<and> set (tl n) \<inter> Collect is_stripped = {}" by simp
  qed
  from sanitized_shape [of index chunk_id offset width s] pass_names [of d err d' processed] 5 6 7
  show ?thesis by (intro conjI) blast+
qed

theorem probe_name_sanitized_witness:
  "wf_design example_chain
   \<and> (\<exists>d'. ControlRegistersProbesPass_execute example_chain
           = Some (None, d', [backslash # ''C'', backslash # ''B'', backslash # ''A''])
        \<and> map (\<lambda>m. map wire_name (mod_wires m)) (design_modules d')
           = [[backslash # ''crtlreg_prbsig7WIRE0BITS0_1_INSTc0PORT1INSTb0PORT1''],
              [backslash # ''crtlreg_prbsig7WIRE0BITS0_1_INSTc0PORT1''],
              [backslash # ''clk'', backslash # ''next'', backslash # ''state'',
               backslash # ''crtlreg_prbsig7WIRE0BITS0_1_'']]
        \<and> list_all2 probe_names_only (design_modules example_chain) (design_modules d')
        \<and> module_probe_names d' (example_module ''A'' [] [example_instance ''b0'' 1 ''B''])
           = [backslash # ''crtlreg_prbsig7WIRE0BITS0_1_INSTc0PORT1INSTb0PORT1'']
        \<and> (\<exists>m1. design_module d' (backslash # ''A'') = Some m1
              \<and> map wire_name (mod_wires m1)
                 = [backslash # ''crtlreg_prbsig7WIRE0BITS0_1_INSTc0PORT1INSTb0PORT1'']))
   \<and> list_all (\<lambda>m. list_all cell_selected (mod_cells m)) (design_modules example_chain)
   \<and> design_module example_chain (backslash # ''A'')
        = Some (example_module ''A'' [] [example_instance ''b0'' 1 ''B''])
   \<and> (\<exists>m'. create_control_registers_probes example_wide example_wide_module = (None, m')
        \<and> map wire_name (mod_wires m')
           = [backslash # ''x'', backslash # ''y'',
              backslash # ''crtlreg_prbsig9WIRE0BITS0_2_'',
              backslash # ''crtlreg_prbsig9WIRE1BITS2_4_''])
   \<and> module_probe_names example_wide example_wide_module
        = [backslash # ''crtlreg_prbsig9WIRE0BITS0_2_'', backslash # ''crtlreg_prbsig9WIRE1BITS2_4_'']
   \<and> hd (backslash # ''crtlreg_prbsig9WIRE0BITS0_2_'') = backslash
   \<and> set (tl (backslash # ''crtlreg_prbsig9WIRE0BITS0_2_'')) \<inter> Collect is_stripped = {}
   \<and> register_probe_name 7 0 0 1 = backslash # ''crtlreg_prbsig7WIRE0BITS0_1_''
   \<and> hd (sanitize_wire_name ''a.b[3]'') = backslash
   \<and> set (tl (sanitize_wire_name ''a.b[3]'')) \<inter> Collect is_stripped = {}"
proof -
  define order where "order = [backslash # ''C'', backslash # ''B'', backslash # ''A'']"
  define names where "names = [[backslash # ''crtlreg_prbsig7WIRE0BITS0_1_INSTc0PORT1INSTb0PORT1''],
              [backslash # ''crtlreg_prbsig7WIRE0BITS0_1_INSTc0PORT1''],
              [backslash # ''clk'', backslash # ''next'', backslash # ''state'',
               backslash # ''crtlreg_prbsig7WIRE0BITS0_1_'']]"
  define raw where "raw = ''crtlreg_prbsig7WIRE0BITS0_1_''"
  define p0 where "p0 = backslash # ''crtlreg_prbsig9WIRE0BITS0_2_''"
  define p1 where "p1 = backslash # ''crtlreg_prbsig9WIRE1BITS2_4_''"
  have wf: "wf_design example_chain" by code_simp
  define mA where "mA = example_module ''A'' [] [example_instance ''b0'' 1 ''B'']"
  define pA where "pA = backslash # ''crtlreg_prbsig7WIRE0BITS0_1_INSTc0PORT1INSTb0PORT1''"
  have ev: "map_option (\<lambda>r. (fst r, map (\<lambda>m. map wire_name (mod_wires m)) (design_modules (fst (snd r))),
        snd (snd r))) (ControlRegistersProbesPass_execute example_chain)
      = Some (None, names, order)" unfolding names_def order_def by code_simp
  have evA: "map_option (\<lambda>r. module_probe_names (fst (snd r)) mA)
        (ControlRegistersProbesPass_execute example_chain) = Some [pA]"
    unfolding mA_def pA_def by code_simp
  have allsel: "list_all (\<lambda>m. list_all cell_selected (mod_cells m)) (design_modules example_chain)"
    by code_simp
  have dmA: "design_module example_chain (backslash # ''A'') = Some mA" unfolding mA_def by code_simp
  have oldA: "map wire_name (mod_wires mA) = []" unfolding mA_def by code_simp
  obtain r where r: "ControlRegistersProbesPass_execute example_chain = Some r"
    using ev by (cases "ControlRegistersProbesPass_execute example_chain") simp_all
  obtain e d' p where edp: "r = (e, d', p)" by (cases r)
  from ev r edp have e: "e = None" and p: "p = order"
    and n: "map (\<lambda>m. map wire_name (mod_wires m)) (design_modules d') = names" by simp_all
  from r edp e p have run: "ControlRegistersProbesPass_execute example_chain = Some (None, d', order)"
    by simp
  have rawv: "register_probe_raw_name 7 0 0 1 = raw" unfolding raw_def by code_simp
  have old: "map wire_name (mod_wires example_wide_module) = [backslash # ''x'', backslash # ''y'']"
    by code_simp
  have new: "module_probe_names example_wide example_wide_module = [p0, p1]"
    unfolding p0_def p1_def by code_simp
  have "fst (create_control_registers_probes example_wide example_wide_module) = None" by code_simp
  then obtain m' where cr: "create_control_registers_probes example_wide example_wide_module = (None, m')"
    by (cases "create_control_registers_probes example_wide example_wide_module") simp
  from evA r edp have nA: "module_probe_names d' mA = [pA]" by simp
  have inA: "backslash # ''A'' \<in> set order" unfolding order_def by simp
  note inst = probe_name_sanitized [of 7 0 0 1 "''a.b[3]''" example_chain None d' order
      mA None mA pA "backslash # ''A''" mA]
  from inst have imp7: "wf_design example_chain
        \<and> ControlRegistersProbesPass_execute example_chain = Some (None, d', order)
        \<and> list_all (\<lambda>m. list_all cell_selected (mod_cells m)) (design_modules example_chain)
        \<and> backslash # ''A'' \<in> set order \<and> design_module example_chain (backslash # ''A'') = Some mA \<longrightarrow>
        (\<exists>m1. design_module d' (backslash # ''A'') = Some m1
           \<and> map wire_name (mod_wires m1) = map wire_name (mod_wires mA) @ module_probe_names d' mA)"
    by (rule conjunct2 [OF conjunct2 [OF conjunct2 [OF conjunct2 [OF conjunct2 [OF conjunct2]]]]])
  have hyp7: "wf_design example_chain
        \<and> ControlRegistersProbesPass_execute example_chain = Some (None, d', order)
        \<and> list_all (\<lambda>m. list_all cell_selected (mod_cells m)) (design_modules example_chain)
        \<and> backslash # ''A'' \<in> set order \<and> design_module example_chain (backslash # ''A'') = Some mA"
    using wf run allsel inA dmA by (intro conjI)
  from imp7 hyp7
  have "\<exists>m1. design_module d' (backslash # ''A'') = Some m1
           \<and> map wire_name (mod_wires m1) = map wire_name (mod_wires mA) @ module_probe_names d' mA"
    by (rule mp)
  with oldA nA have w7: "\<exists>m1. design_module d' (backslash # ''A'') = Some m1
           \<and> map wire_name (mod_wires m1) = [pA]" by simp
  note wide = probe_name_sanitized [of 7 0 0 1 "''a.b[3]''" example_wide None d' order
      example_wide_module None m' p0]
  from inst have i1: "register_probe_name 7 0 0 1 = backslash # register_probe_raw_name 7 0 0 1"
    by (rule conjunct1)
  from inst have i2: "hd (sanitize_wire_name ''a.b[3]'') = backslash"
    by (rule conjunct1 [OF conjunct2])
  from inst have i3: "set (tl (sanitize_wire_name ''a.b[3]'')) \<inter> Collect is_stripped = {}"
    by (rule conjunct1 [OF conjunct2 [OF conjunct2]])
  from inst have i4: "wf_design example_chain \<and> ControlRegistersProbesPass_execute example_chain
        = Some (None, d', order) \<longrightarrow>
        list_all2 probe_names_only (design_modules example_chain) (design_modules d')"
    by (rule conjunct1 [OF conjunct2 [OF conjunct2 [OF conjunct2]]])
  from i4 wf run have a: "list_all2 probe_names_only (design_modules example_chain) (design_modules d')"
    by (rule mp [OF _ conjI])
  from wide have "create_control_registers_probes example_wide example_wide_module = (None, m') \<longrightarrow>
        (\<exists>j. map wire_name (mod_wires m') = map wire_name (mod_wires example_wide_module)
               @ take j (module_probe_names example_wide example_wide_module))
        \<and> ((None :: error option) = None \<longrightarrow>
             map wire_name (mod_wires m') = map wire_name (mod_wires example_wide_module)
               @ module_probe_names example_wide example_wide_module)"
    by (rule conjunct1 [OF conjunct2 [OF conjunct2 [OF conjunct2 [OF conjunct2]]]])
  with cr have "map wire_name (mod_wires m') = map wire_name (mod_wires example_wide_module)
               @ module_probe_names example_wide example_wide_module" by simp
  with old new have w5: "map wire_name (mod_wires m') = [backslash # ''x'', backslash # ''y'', p0, p1]"
    by simp
  from wide have "p0 \<in> set (module_probe_names example_wide example_wide_module) \<longrightarrow>
        hd p0 = backslash \<and> set (tl p0) \<inter> Collect is_stripped = {}"
    by (rule conjunct1 [OF conjunct2 [OF conjunct2 [OF conjunct2 [OF conjunct2 [OF conjunct2]]]]])
  with new have w6: "hd p0 = backslash" "set (tl p0) \<inter> Collect is_stripped = {}" by simp_all
  from i1 rawv have b: "register_probe_name 7 0 0 1 = backslash # raw" by (rule trans [OF _ arg_cong])
  have ex: "\<exists>d'. ControlRegistersProbesPass_execute example_chain = Some (None, d', order)
        \<and> map (\<lambda>m. map wire_name (mod_wires m)) (design_modules d') = names
        \<and> list_all2 probe_names_only (design_modules example_chain) (design_modules d')
        \<and> module_probe_names d' mA = [pA]
        \<and> (\<exists>m1. design_module d' (backslash # ''A'') = Some m1 \<and> map wire_name (mod_wires m1) = [pA])"
    using run n a nA w7 by (intro exI [of _ d'] conjI)
  have ex2: "\<exists>m'. create_control_registers_probes example_wide example_wide_module = (None, m')
        \<and> map wire_name (mod_wires m') = [backslash # ''x'', backslash # ''y'', p0, p1]"
    using cr w5 by (intro exI [of _ m'] conjI)
  show ?thesis
    using wf ex allsel dmA ex2 new w6 b i2 i3
    unfolding names_def order_def raw_def p0_def p1_def mA_def pA_def
    by (intro conjI)
qed

text \<open>
  C4 (as stated) fails. The sanitized name of the probe of cell 0, chunk 0, bits 0 to 1 contains
  a backslash, which is one of the six characters. And the name of a probe that is threaded
  through an instance is not a function of the identities of the cells, the chunk index and the
  bit offsets: it changes with the port number of the wire of the instantiated module (line
  90). The designs \<open>example_chain\<close> and \<open>example_ported_chain\<close> have the same cells, with
  the same \<open>Q\<close> port on the register, and the probes of \<open>B\<close> and of \<open>A\<close> have different
  names in the two, after the port number of the probe in \<open>C\<close>.
\<close>

theorem probe_name_backslash_counterexample:
  "backslash \<in> set (register_probe_name 0 0 0 1) \<and> is_stripped backslash
   \<and> submodule_probe_name (backslash # ''p'') (backslash # ''c0'') 1 = backslash # ''pINSTc0PORT1''
   \<and> submodule_probe_name (backslash # ''p'') (backslash # ''c0'') 2 = backslash # ''pINSTc0PORT2''
   \<and> map mod_cells (design_modules example_ported_chain)
        = map mod_cells (design_modules example_chain)
   \<and> map_option (\<lambda>r. map (\<lambda>m. map wire_name (mod_wires m)) (design_modules (fst (snd r))))
        (ControlRegistersProbesPass_execute example_chain)
      = Some [[backslash # ''crtlreg_prbsig7WIRE0BITS0_1_INSTc0PORT1INSTb0PORT1''],
              [backslash # ''crtlreg_prbsig7WIRE0BITS0_1_INSTc0PORT1''],
              [backslash # ''clk'', backslash # ''next'', backslash # ''state'',
               backslash # ''crtlreg_prbsig7WIRE0BITS0_1_'']]
   \<and> map_option (\<lambda>r. map (\<lambda>m. map wire_name (mod_wires m)) (design_modules (fst (snd r))))
        (ControlRegistersProbesPass_execute example_ported_chain)
      = Some [[backslash # ''crtlreg_prbsig7WIRE0BITS0_1_INSTc0PORT2INSTb0PORT1''],
              [backslash # ''crtlreg_prbsig7WIRE0BITS0_1_INSTc0PORT2''],
              [backslash # ''clk'', backslash # ''next'', backslash # ''state'',
               backslash # ''crtlreg_prbsig7WIRE0BITS0_1_'']]"
  by code_simp

end
